theory Spec2Isabelle
  imports Complex_Main
begin

unbundle bit_operations_syntax

section \<open>The engine state and the outcome of a call\<close>

text \<open>
  The module keeps five globals: the two twiddle tables and the bit-reversal table
  (raw pointers, \<open>nullptr\<close> until \<open>initFFT\<close> succeeds) and the two halves of the CQT
  kernel bank (vectors of vectors, empty until \<open>initCQT\<close> runs). A pointer is an
  optional list, \<open>None\<close> being \<open>nullptr\<close>. The entries of the bit-reversal table are
  never negative and are kept as naturals.

  \<open>float\<close> values are idealised as real numbers: \<open>cosf\<close>, \<open>sinf\<close>, \<open>powf\<close> and \<open>ceilf\<close>
  are the real functions, and rounding is not modelled. Which bins \<open>initCQT\<close> skips is
  decided by comparisons of values the call has computed, and there rounding matters:
  \<open>initCQT\<close> is therefore modelled a second time, over an arithmetic that is a parameter.
\<close>

record engine =
  twiddleReal :: "real list option"
  twiddleImag :: "real list option"
  bitReversalIndices :: "nat list option"
  cqtKernelReal :: "real list list"
  cqtKernelImag :: "real list list"

text \<open>
  A caller's buffer is a pointer with an implied length: an optional list. The caller's
  buffers are taken to be disjoint from each other and from the engine's tables.
\<close>

type_synonym buffer = "real list option"

text \<open>
  Where C++ leaves the behaviour of a call undefined, the model stops with a fault
  instead of a result: an access outside a buffer or a table (or through a null table
  the guards do not test), a signed 32-bit overflow, and the quotient \<open>1.0f / 0\<close>, whose
  floating-point value (an infinity, then a NaN in the window) is no real number.
\<close>

datatype fault = OutOfBounds | IntegerOverflow | DivisionByZero

definition engine0 :: engine where
  "engine0 = \<lparr>twiddleReal = None, twiddleImag = None, bitReversalIndices = None,
     cqtKernelReal = [], cqtKernelImag = []\<rparr>"

section \<open>isPowerOfTwo\<close>

definition isPowerOfTwo :: "int \<Rightarrow> bool" where
  "isPowerOfTwo n = (n > 0 \<and> n AND (n - 1) = 0)"

section \<open>initFFT\<close>

text \<open>The inner \<open>while (j & bit) { j ^= bit; bit >>= 1; }\<close>, returning \<open>j\<close> and \<open>bit\<close> (here \<open>msk\<close>).\<close>

function reverse_carry :: "nat \<Rightarrow> nat \<Rightarrow> nat \<times> nat" where
  "reverse_carry j msk =
     (if j AND msk \<noteq> 0 then reverse_carry (j XOR msk) (drop_bit 1 msk) else (j, msk))"
  by pat_completeness auto
termination
proof (relation "measure (\<lambda>(j, msk). msk)")
  show "wf (measure (\<lambda>(j, msk). msk))" by simp
next
  fix j msk :: nat
  assume "j AND msk \<noteq> 0"
  then have "msk \<noteq> 0" by (cases "msk = 0") simp_all
  then show "((j XOR msk, drop_bit 1 msk), (j, msk)) \<in> measure (\<lambda>(j, msk). msk)"
    by (simp add: drop_bit_eq_div)
qed

declare reverse_carry.simps [simp del]

text \<open>
  The loop \<open>for (i = 0; i < n; i++)\<close> that fills the bit-reversal table, with the
  running \<open>j\<close>; \<open>tab\<close> is the allocated block.
\<close>

function fill_bitrev :: "nat \<Rightarrow> nat \<Rightarrow> nat \<Rightarrow> nat list \<Rightarrow> nat list" where
  "fill_bitrev n i j tab =
     (if i < n then
        (let tab' = tab[i := j];
             (j', msk) = reverse_carry j (drop_bit 1 n)
         in fill_bitrev n (Suc i) (j' XOR msk) tab')
      else tab)"
  by pat_completeness auto
termination
  by (relation "measure (\<lambda>(n, i, j, tab). n - i)") auto

declare fill_bitrev.simps [simp del]

definition twiddle_angle :: "nat \<Rightarrow> nat \<Rightarrow> real" where
  "twiddle_angle n i = - 2 * pi * real i / real n"

text \<open>
  \<open>initFFT\<close>. The three flags say whether each \<open>malloc\<close> returns a block, in the order
  of the calls. The size of the bit-reversal block, \<open>n * sizeof(int)\<close>, does not fit 32
  bits for \<open>n = 2^30\<close>, the largest power of two an \<open>int\<close> holds: the block would be
  too short for the loop that fills it.
\<close>

definition initFFT :: "engine \<Rightarrow> bool \<Rightarrow> bool \<Rightarrow> bool \<Rightarrow> int \<Rightarrow> fault + bool \<times> engine" where
  "initFFT st okRe okIm okBr n =
     (if \<not> isPowerOfTwo n then Inr (False, st)
      else if \<not> okRe \<or> \<not> okIm then
        Inr (False, st\<lparr>twiddleReal := None, twiddleImag := None\<rparr>)
      else
        (let N = nat n;
             st1 = st\<lparr>twiddleReal := Some (map (\<lambda>i. cos (twiddle_angle N i)) [0..<N div 2]),
                      twiddleImag := Some (map (\<lambda>i. sin (twiddle_angle N i)) [0..<N div 2])\<rparr>
         in if \<not> okBr then
              Inr (False, st1\<lparr>twiddleReal := None, twiddleImag := None,
                             bitReversalIndices := None\<rparr>)
            else if 2 ^ 30 \<le> n then Inl IntegerOverflow
            else Inr (True, st1\<lparr>bitReversalIndices := Some (fill_bitrev N 0 0 (replicate N 0))\<rparr>)))"

section \<open>fft\<close>

text \<open>\<open>std::swap(xs[i], xs[j])\<close>.\<close>

definition swap_at :: "real list \<Rightarrow> nat \<Rightarrow> nat \<Rightarrow> real list" where
  "swap_at xs i j = xs[i := xs ! j, j := xs ! i]"

text \<open>The first loop of \<open>fft\<close>: the bit-reversal permutation, by swaps.\<close>

definition bit_reverse_step :: "nat list \<Rightarrow> nat \<Rightarrow> real list \<times> real list \<Rightarrow> real list \<times> real list" where
  "bit_reverse_step br i = (\<lambda>(re, im).
     (let j = br ! i in if i < j then (swap_at re i j, swap_at im i j) else (re, im)))"

definition bit_reverse_pass :: "nat list \<Rightarrow> nat \<Rightarrow> real list \<times> real list \<Rightarrow> real list \<times> real list" where
  "bit_reverse_pass br n = fold (bit_reverse_step br) [0..<n]"

text \<open>The body of the innermost loop: one butterfly, at block start \<open>i\<close> and offset \<open>j\<close>.\<close>

definition butterfly ::
  "real list \<Rightarrow> real list \<Rightarrow> nat \<Rightarrow> nat \<Rightarrow> nat \<Rightarrow> nat \<Rightarrow> real list \<times> real list \<Rightarrow> real list \<times> real list" where
  "butterfly twr twi step half i j = (\<lambda>(re, im).
     (let even = i + j; odd = even + half;
          t_re = re ! odd * twr ! (j * step) - im ! odd * twi ! (j * step);
          t_im = re ! odd * twi ! (j * step) + im ! odd * twr ! (j * step);
          re1 = re[odd := re ! even - t_re];
          im1 = im[odd := im ! even - t_im];
          re2 = re1[even := re1 ! even + t_re];
          im2 = im1[even := im1 ! even + t_im]
      in (re2, im2)))"

text \<open>\<open>for (j = 0; j < half; j++)\<close>.\<close>

definition butterfly_block ::
  "real list \<Rightarrow> real list \<Rightarrow> nat \<Rightarrow> nat \<Rightarrow> nat \<Rightarrow> real list \<times> real list \<Rightarrow> real list \<times> real list" where
  "butterfly_block twr twi step half i = fold (butterfly twr twi step half i) [0..<half]"

text \<open>
  \<open>for (i = 0; i < n; i += len)\<close>. The loop is entered with \<open>len \<ge> 2\<close> only; the test
  \<open>0 < len\<close> stands for that and makes the recursion total.
\<close>

function butterfly_blocks ::
  "real list \<Rightarrow> real list \<Rightarrow> nat \<Rightarrow> nat \<Rightarrow> nat \<Rightarrow> real list \<times> real list \<Rightarrow> real list \<times> real list" where
  "butterfly_blocks twr twi n len i bufs =
     (if i < n \<and> 0 < len then
        butterfly_blocks twr twi n len (i + len)
          (butterfly_block twr twi (n div len) (len div 2) i bufs)
      else bufs)"
  by pat_completeness auto
termination
  by (relation "measure (\<lambda>(twr, twi, n, len, i, bufs). n - i)") auto

declare butterfly_blocks.simps [simp del]

text \<open>\<open>for (len = 2; len <= n; len <<= 1)\<close>.\<close>

function fft_stages ::
  "real list \<Rightarrow> real list \<Rightarrow> nat \<Rightarrow> nat \<Rightarrow> real list \<times> real list \<Rightarrow> real list \<times> real list" where
  "fft_stages twr twi n len bufs =
     (if len \<le> n \<and> 0 < len then
        fft_stages twr twi n (push_bit 1 len) (butterfly_blocks twr twi n len 0 bufs)
      else bufs)"
  by pat_completeness auto
termination
  by (relation "measure (\<lambda>(twr, twi, n, len, bufs). Suc n - len)") (auto simp: push_bit_eq_mult)

declare fft_stages.simps [simp del]

text \<open>
  What makes a call that passed the guards undefined, in the order the code meets it:
  the first loop reads \<open>n\<close> entries of the bit-reversal table and swaps at the indices it
  finds there; for \<open>n \<ge> 2\<close> the butterflies touch every index below \<open>n\<close> of both buffers
  and every index below \<open>n / 2\<close> of both twiddle tables (\<open>twiddleImag\<close> is not among the
  guards); and the last \<open>len <<= 1\<close> overflows for \<open>n = 2^30\<close>.
\<close>

definition fft_fault ::
  "real list \<Rightarrow> real list \<Rightarrow> nat list \<Rightarrow> real list \<Rightarrow> real list option \<Rightarrow> nat \<Rightarrow> fault option" where
  "fft_fault re im br twr twi n =
     (if length br < n then Some OutOfBounds
      else if \<not> list_all (\<lambda>i. br ! i \<le> i \<or> br ! i < min (length re) (length im)) [0..<n]
        then Some OutOfBounds
      else if 2 \<le> n \<and> (length re < n \<or> length im < n \<or> length twr < n div 2
                \<or> (case twi of None \<Rightarrow> True | Some t \<Rightarrow> length t < n div 2))
        then Some OutOfBounds
      else if 2 ^ 30 \<le> n then Some IntegerOverflow
      else None)"

text \<open>
  \<open>fft\<close>: the returned tuple is the \<open>bool\<close> result, the engine after the call and the
  caller's two buffers after the call.
\<close>

definition fft :: "engine \<Rightarrow> buffer \<Rightarrow> buffer \<Rightarrow> int \<Rightarrow> fault + bool \<times> engine \<times> buffer \<times> buffer" where
  "fft st real_buf imag_buf n =
     (if \<not> isPowerOfTwo n \<or> real_buf = None \<or> imag_buf = None
         \<or> twiddleReal st = None \<or> bitReversalIndices st = None
      then Inr (False, st, real_buf, imag_buf)
      else
        (let re = the real_buf; im = the imag_buf;
             twr = the (twiddleReal st); br = the (bitReversalIndices st);
             twi = (case twiddleImag st of None \<Rightarrow> [] | Some t \<Rightarrow> t)
         in case fft_fault re im br twr (twiddleImag st) (nat n) of
              Some f \<Rightarrow> Inl f
            | None \<Rightarrow>
                (let (re', im') = fft_stages twr twi (nat n) 2 (bit_reverse_pass br (nat n) (re, im))
                 in Inr (True, st, Some re', Some im'))))"

section \<open>ifft\<close>

text \<open>\<open>for (i = 0; i < n; i++) xs[i] = f(xs[i])\<close>, on a buffer that holds \<open>n\<close> values.\<close>

definition map_first :: "nat \<Rightarrow> (real \<Rightarrow> real) \<Rightarrow> real list \<Rightarrow> real list" where
  "map_first n f xs = map f (take n xs) @ drop n xs"

text \<open>
  \<open>ifft\<close> negates the imaginary buffer before it calls \<open>fft\<close>, and scales both buffers
  after it; both loops run over \<open>n\<close> entries, whatever \<open>fft\<close> touched.
\<close>

definition ifft :: "engine \<Rightarrow> buffer \<Rightarrow> buffer \<Rightarrow> int \<Rightarrow> fault + bool \<times> engine \<times> buffer \<times> buffer" where
  "ifft st real_buf imag_buf n =
     (if \<not> isPowerOfTwo n \<or> real_buf = None \<or> imag_buf = None
      then Inr (False, st, real_buf, imag_buf)
      else
        (let invN = 1 / real_of_int n in
         if length (the imag_buf) < nat n then Inl OutOfBounds
         else
           (case fft st real_buf (Some (map_first (nat n) uminus (the imag_buf))) n of
              Inl f \<Rightarrow> Inl f
            | Inr (ok, st', real_buf', imag_buf') \<Rightarrow>
                if \<not> ok then Inr (False, st', real_buf', imag_buf')
                else if length (the real_buf') < nat n then Inl OutOfBounds
                else Inr (True, st',
                       Some (map_first (nat n) (\<lambda>x. x * invN) (the real_buf')),
                       Some (map_first (nat n) (\<lambda>x. x * - invN) (the imag_buf'))))))"

section \<open>initCQT\<close>

text \<open>
  \<open>bank.resize(m, std::vector<float>(n, 0.0f))\<close>: the rows the bank already has are
  kept as they are (or cut off beyond \<open>m\<close>), new rows are \<open>n\<close> zeros. The vectors'
  own allocations are taken to succeed.
\<close>

definition resize_bank :: "nat \<Rightarrow> nat \<Rightarrow> real list list \<Rightarrow> real list list" where
  "resize_bank m n bank = take m bank @ replicate (m - length bank) (replicate n 0)"

definition cqt_Q :: "int \<Rightarrow> real" where
  "cqt_Q binsPerOctave = 1 / (2 powr (1 / real_of_int binsPerOctave) - 1)"

definition bin_freq :: "int \<Rightarrow> real \<Rightarrow> nat \<Rightarrow> real" where
  "bin_freq binsPerOctave minFreq k = minFreq * 2 powr (real k / real_of_int binsPerOctave)"

text \<open>The loop that writes the windowed carrier into the two zeroed temporaries.\<close>

definition kernel_samples :: "real \<Rightarrow> real \<Rightarrow> int \<Rightarrow> nat \<Rightarrow> real list \<times> real list" where
  "kernel_samples freq sampleRate filterLen n =
     (let invFilterLenMinus1 = 1 / real_of_int (filterLen - 1) in
      fold (\<lambda>i (tempReal, tempImag).
              (let t = real i - (real_of_int filterLen - 1) / 2;
                   window = 0.5 - 0.5 * cos (2 * pi * real i * invFilterLenMinus1)
               in (tempReal[i := window * cos (2 * pi * freq * t / sampleRate)],
                   tempImag[i := window * sin (2 * pi * freq * t / sampleRate)])))
        [0..<nat filterLen] (replicate n 0, replicate n 0))"

text \<open>
  The body of the loop over the bins. \<open>Inr (True, st')\<close> goes on to the next bin,
  \<open>Inr (False, st')\<close> is the \<open>return false\<close> after a failed \<open>fft\<close>. The conversion of the
  ceiling to \<open>int\<close> is undefined beyond 32 bits; a row of the bank shorter than \<open>n\<close>
  (one an earlier \<open>initCQT\<close> left) cannot take the copy.
\<close>

definition initCQT_bin ::
  "int \<Rightarrow> int \<Rightarrow> real \<Rightarrow> real \<Rightarrow> real \<Rightarrow> nat \<Rightarrow> engine \<Rightarrow> fault + bool \<times> engine" where
  "initCQT_bin binsPerOctave n sampleRate minFreq Q k st =
     (let freq = bin_freq binsPerOctave minFreq k in
      if freq \<le> 0 \<or> freq \<ge> sampleRate / 2 then Inr (True, st)
      else if 2 ^ 31 \<le> \<lceil>Q * sampleRate / freq\<rceil> \<or> \<lceil>Q * sampleRate / freq\<rceil> < - (2 ^ 31)
        then Inl IntegerOverflow
      else
        (let filterLen0 = \<lceil>Q * sampleRate / freq\<rceil>;
             filterLen = (if filterLen0 > n then n else filterLen0)
         in if filterLen \<le> 0 then Inr (True, st)
            else if filterLen - 1 = 0 then Inl DivisionByZero
            else
              (let (tempReal, tempImag) = kernel_samples freq sampleRate filterLen (nat n) in
               case fft st (Some tempReal) (Some tempImag) n of
                 Inl f \<Rightarrow> Inl f
               | Inr (ok, st', tempReal', tempImag') \<Rightarrow>
                   if \<not> ok then Inr (False, st')
                   else if length (cqtKernelReal st') \<le> k \<or> length (cqtKernelImag st') \<le> k
                        \<or> length (cqtKernelReal st' ! k) < nat n
                        \<or> length (cqtKernelImag st' ! k) < nat n
                     then Inl OutOfBounds
                   else Inr (True, st'
                          \<lparr>cqtKernelReal := (cqtKernelReal st')
                              [k := take (nat n) (the tempReal') @ drop (nat n) (cqtKernelReal st' ! k)],
                           cqtKernelImag := (cqtKernelImag st')
                              [k := take (nat n) (the tempImag') @ drop (nat n) (cqtKernelImag st' ! k)]\<rparr>))))"

text \<open>\<open>for (int k = 0; k < totalBins; k++)\<close>.\<close>

function initCQT_bins ::
  "int \<Rightarrow> int \<Rightarrow> real \<Rightarrow> real \<Rightarrow> real \<Rightarrow> nat \<Rightarrow> nat \<Rightarrow> engine \<Rightarrow> fault + bool \<times> engine" where
  "initCQT_bins binsPerOctave n sampleRate minFreq Q totalBins k st =
     (if k < totalBins then
        (case initCQT_bin binsPerOctave n sampleRate minFreq Q k st of
           Inl f \<Rightarrow> Inl f
         | Inr (go_on, st') \<Rightarrow>
             if go_on then initCQT_bins binsPerOctave n sampleRate minFreq Q totalBins (Suc k) st'
             else Inr (False, st'))
      else Inr (True, st))"
  by pat_completeness auto
termination
  by (relation "measure (\<lambda>(b, n, sr, mf, Q, totalBins, k, st). totalBins - k)") auto

declare initCQT_bins.simps [simp del]

definition initCQT ::
  "engine \<Rightarrow> int \<Rightarrow> int \<Rightarrow> int \<Rightarrow> real \<Rightarrow> real \<Rightarrow> fault + bool \<times> engine" where
  "initCQT st binsPerOctave octaves n sampleRate minFreq =
     (if binsPerOctave \<le> 0 \<or> octaves \<le> 0 \<or> n \<le> 0 \<or> sampleRate \<le> 0 \<or> minFreq \<le> 0
      then Inr (False, st)
      else if 2 ^ 31 \<le> binsPerOctave * octaves then Inl IntegerOverflow
      else
        (let totalBins = nat (binsPerOctave * octaves);
             st1 = st\<lparr>cqtKernelReal := resize_bank totalBins (nat n) (cqtKernelReal st),
                      cqtKernelImag := resize_bank totalBins (nat n) (cqtKernelImag st)\<rparr>
         in initCQT_bins binsPerOctave n sampleRate minFreq (cqt_Q binsPerOctave) totalBins 0 st1))"

section \<open>initCQT over the arithmetic of the machine\<close>

text \<open>
  The operations of \<open>float\<close> that decide the control flow of \<open>initCQT\<close>, as parameters:
  the conversion of an \<open>int\<close> (\<open>static_cast<float>\<close> and the implicit conversions; the
  literals \<open>1.0f\<close> and \<open>2.0f\<close> are the conversions of 1 and 2), the product, the
  quotient, the difference, \<open>powf\<close> (a function of the C library, not of this
  repository), the comparison \<open>a <= b\<close> (\<open>a >= b\<close> is \<open>b <= a\<close>), and \<open>ceilf\<close> read as
  an integer. \<open>'f\<close> is the type of the values of \<open>float\<close>; nothing is assumed of it or of
  the operations, so what is proved of this model holds for binary32 with its rounding,
  its infinities and its NaN as for any other arithmetic. \<open>fval\<close> reads a value as a
  real number, for the samples of the kernel.
\<close>

record 'f arith =
  fconv :: "int \<Rightarrow> 'f"
  fmul :: "'f \<Rightarrow> 'f \<Rightarrow> 'f"
  fdiv :: "'f \<Rightarrow> 'f \<Rightarrow> 'f"
  fsub :: "'f \<Rightarrow> 'f \<Rightarrow> 'f"
  fpow :: "'f \<Rightarrow> 'f \<Rightarrow> 'f"
  fle :: "'f \<Rightarrow> 'f \<Rightarrow> bool"
  fceil :: "'f \<Rightarrow> int"
  fval :: "'f \<Rightarrow> real"

text \<open>The arithmetic of the real numbers, in which the model of the previous section is written.\<close>

definition exact :: "real arith" where
  "exact = \<lparr>fconv = real_of_int, fmul = (\<lambda>a b. a * b), fdiv = (\<lambda>a b. a / b),
     fsub = (\<lambda>a b. a - b), fpow = (\<lambda>a b. a powr b), fle = (\<lambda>a b. a \<le> b),
     fceil = ceiling, fval = (\<lambda>a. a)\<rparr>"

text \<open>
  \<open>powf(2.0f, 1.0f / binsPerOctave) - 1.0f\<close>, the divisor of \<open>Q\<close>, and \<open>Q\<close> itself.
\<close>

definition cqt_Q_den_ar :: "'f arith \<Rightarrow> int \<Rightarrow> 'f" where
  "cqt_Q_den_ar ar binsPerOctave =
     fsub ar (fpow ar (fconv ar 2) (fdiv ar (fconv ar 1) (fconv ar binsPerOctave))) (fconv ar 1)"

definition cqt_Q_ar :: "'f arith \<Rightarrow> int \<Rightarrow> 'f" where
  "cqt_Q_ar ar binsPerOctave = fdiv ar (fconv ar 1) (cqt_Q_den_ar ar binsPerOctave)"

text \<open>\<open>minFreq * powf(2.0f, static_cast<float>(k) / binsPerOctave)\<close>.\<close>

definition bin_freq_ar :: "'f arith \<Rightarrow> int \<Rightarrow> 'f \<Rightarrow> nat \<Rightarrow> 'f" where
  "bin_freq_ar ar binsPerOctave minFreq k =
     fmul ar minFreq (fpow ar (fconv ar 2) (fdiv ar (fconv ar (int k)) (fconv ar binsPerOctave)))"

text \<open>\<open>ceilf(Q * sampleRate / freq)\<close>, before its conversion to \<open>int\<close>.\<close>

definition raw_filter_len :: "'f arith \<Rightarrow> 'f \<Rightarrow> 'f \<Rightarrow> 'f \<Rightarrow> int" where
  "raw_filter_len ar Q sampleRate freq = fceil ar (fdiv ar (fmul ar Q sampleRate) freq)"

text \<open>
  The body of the loop over the bins, test for test as in the previous section. The
  samples of the kernel and their transform stay in real arithmetic: of a kernel that
  is written, this development says where it is written, not what it holds.
\<close>

definition initCQT_bin_ar ::
  "'f arith \<Rightarrow> int \<Rightarrow> int \<Rightarrow> 'f \<Rightarrow> 'f \<Rightarrow> 'f \<Rightarrow> nat \<Rightarrow> engine \<Rightarrow> fault + bool \<times> engine" where
  "initCQT_bin_ar ar binsPerOctave n sampleRate minFreq Q k st =
     (let freq = bin_freq_ar ar binsPerOctave minFreq k in
      if fle ar freq (fconv ar 0) \<or> fle ar (fdiv ar sampleRate (fconv ar 2)) freq
      then Inr (True, st)
      else if 2 ^ 31 \<le> raw_filter_len ar Q sampleRate freq
              \<or> raw_filter_len ar Q sampleRate freq < - (2 ^ 31)
        then Inl IntegerOverflow
      else
        (let filterLen0 = raw_filter_len ar Q sampleRate freq;
             filterLen = (if filterLen0 > n then n else filterLen0)
         in if filterLen \<le> 0 then Inr (True, st)
            else if filterLen - 1 = 0 then Inl DivisionByZero
            else
              (let (tempReal, tempImag) =
                     kernel_samples (fval ar freq) (fval ar sampleRate) filterLen (nat n) in
               case fft st (Some tempReal) (Some tempImag) n of
                 Inl f \<Rightarrow> Inl f
               | Inr (ok, st', tempReal', tempImag') \<Rightarrow>
                   if \<not> ok then Inr (False, st')
                   else if length (cqtKernelReal st') \<le> k \<or> length (cqtKernelImag st') \<le> k
                        \<or> length (cqtKernelReal st' ! k) < nat n
                        \<or> length (cqtKernelImag st' ! k) < nat n
                     then Inl OutOfBounds
                   else Inr (True, st'
                          \<lparr>cqtKernelReal := (cqtKernelReal st')
                              [k := take (nat n) (the tempReal') @ drop (nat n) (cqtKernelReal st' ! k)],
                           cqtKernelImag := (cqtKernelImag st')
                              [k := take (nat n) (the tempImag') @ drop (nat n) (cqtKernelImag st' ! k)]\<rparr>))))"

text \<open>\<open>for (int k = 0; k < totalBins; k++)\<close>.\<close>

function initCQT_bins_ar ::
  "'f arith \<Rightarrow> int \<Rightarrow> int \<Rightarrow> 'f \<Rightarrow> 'f \<Rightarrow> 'f \<Rightarrow> nat \<Rightarrow> nat \<Rightarrow> engine \<Rightarrow> fault + bool \<times> engine" where
  "initCQT_bins_ar ar binsPerOctave n sampleRate minFreq Q totalBins k st =
     (if k < totalBins then
        (case initCQT_bin_ar ar binsPerOctave n sampleRate minFreq Q k st of
           Inl f \<Rightarrow> Inl f
         | Inr (go_on, st') \<Rightarrow>
             if go_on
             then initCQT_bins_ar ar binsPerOctave n sampleRate minFreq Q totalBins (Suc k) st'
             else Inr (False, st'))
      else Inr (True, st))"
  by pat_completeness auto
termination
  by (relation "measure (\<lambda>(ar, b, n, sr, mf, Q, totalBins, k, st). totalBins - k)") auto

declare initCQT_bins_ar.simps [simp del]

text \<open>
  \<open>initCQT\<close>. A divisor of \<open>Q\<close> that compares equal to zero makes \<open>1.0f / 0\<close>, a fault
  as in the body of the loop; in binary32 \<open>powf(2.0f, 1.0f / binsPerOctave)\<close> can round
  to 1.
\<close>

definition initCQT_ar ::
  "'f arith \<Rightarrow> engine \<Rightarrow> int \<Rightarrow> int \<Rightarrow> int \<Rightarrow> 'f \<Rightarrow> 'f \<Rightarrow> fault + bool \<times> engine" where
  "initCQT_ar ar st binsPerOctave octaves n sampleRate minFreq =
     (if binsPerOctave \<le> 0 \<or> octaves \<le> 0 \<or> n \<le> 0
         \<or> fle ar sampleRate (fconv ar 0) \<or> fle ar minFreq (fconv ar 0)
      then Inr (False, st)
      else if 2 ^ 31 \<le> binsPerOctave * octaves then Inl IntegerOverflow
      else
        (let totalBins = nat (binsPerOctave * octaves);
             st1 = st\<lparr>cqtKernelReal := resize_bank totalBins (nat n) (cqtKernelReal st),
                      cqtKernelImag := resize_bank totalBins (nat n) (cqtKernelImag st)\<rparr>
         in if fle ar (cqt_Q_den_ar ar binsPerOctave) (fconv ar 0)
               \<and> fle ar (fconv ar 0) (cqt_Q_den_ar ar binsPerOctave)
            then Inl DivisionByZero
            else initCQT_bins_ar ar binsPerOctave n sampleRate minFreq
                   (cqt_Q_ar ar binsPerOctave) totalBins 0 st1))"

section \<open>cqt\<close>

text \<open>The inner loop: the two running sums over the \<open>n\<close> samples, for one kernel.\<close>

definition cqt_sum :: "real list \<Rightarrow> real list \<Rightarrow> real list \<Rightarrow> real list \<Rightarrow> nat \<Rightarrow> real \<times> real" where
  "cqt_sum inputReal inputImag kernelReal kernelImag n =
     fold (\<lambda>i (sumReal, sumImag).
             (sumReal + (inputReal ! i * kernelReal ! i - inputImag ! i * kernelImag ! i),
              sumImag + (inputReal ! i * kernelImag ! i + inputImag ! i * kernelReal ! i)))
       [0..<n] (0, 0)"

text \<open>The outer loop: one pair of outputs per bin.\<close>

definition cqt_bins ::
  "engine \<Rightarrow> real list \<Rightarrow> real list \<Rightarrow> nat \<Rightarrow> nat \<Rightarrow> real list \<times> real list \<Rightarrow> real list \<times> real list" where
  "cqt_bins st inputReal inputImag n totalBins =
     fold (\<lambda>k (outputReal, outputImag).
             (let (sumReal, sumImag) =
                    cqt_sum inputReal inputImag (cqtKernelReal st ! k) (cqtKernelImag st ! k) n;
                  invN = 1 / real n
              in (outputReal[k := sumReal * invN], outputImag[k := sumImag * invN])))
       [0..<totalBins]"

text \<open>
  The loops read \<open>n\<close> entries of both inputs and of the first \<open>totalBins\<close> rows of both
  halves of the bank, and write \<open>totalBins\<close> entries of both outputs. Only the size of
  \<open>cqtKernelReal\<close> is guarded.
\<close>

definition cqt_in_bounds ::
  "engine \<Rightarrow> real list \<Rightarrow> real list \<Rightarrow> real list \<Rightarrow> real list \<Rightarrow> nat \<Rightarrow> nat \<Rightarrow> bool" where
  "cqt_in_bounds st inputReal inputImag outputReal outputImag n totalBins =
     (n \<le> length inputReal \<and> n \<le> length inputImag
      \<and> totalBins \<le> length outputReal \<and> totalBins \<le> length outputImag
      \<and> totalBins \<le> length (cqtKernelImag st)
      \<and> list_all (\<lambda>k. n \<le> length (cqtKernelReal st ! k) \<and> n \<le> length (cqtKernelImag st ! k))
           [0..<totalBins])"

text \<open>
  \<open>cqt\<close>: the returned tuple is the \<open>bool\<close> result, the engine after the call and the
  two output buffers after the call. The input buffers are only read.
\<close>

definition cqt ::
  "engine \<Rightarrow> buffer \<Rightarrow> buffer \<Rightarrow> buffer \<Rightarrow> buffer \<Rightarrow> int \<Rightarrow> int \<Rightarrow> int
     \<Rightarrow> fault + bool \<times> engine \<times> buffer \<times> buffer" where
  "cqt st inputReal inputImag outputReal outputImag n binsPerOctave octaves =
     (if inputReal = None \<or> inputImag = None \<or> outputReal = None \<or> outputImag = None
         \<or> binsPerOctave \<le> 0 \<or> octaves \<le> 0 \<or> n \<le> 0
      then Inr (False, st, outputReal, outputImag)
      else if 2 ^ 31 \<le> binsPerOctave * octaves then Inl IntegerOverflow
      else
        (let totalBins = binsPerOctave * octaves in
         if totalBins > int (length (cqtKernelReal st)) then Inr (False, st, outputReal, outputImag)
         else if \<not> cqt_in_bounds st (the inputReal) (the inputImag) (the outputReal) (the outputImag)
                   (nat n) (nat totalBins)
           then Inl OutOfBounds
         else
           (let (outputReal', outputImag') =
                  cqt_bins st (the inputReal) (the inputImag) (nat n) (nat totalBins)
                    (the outputReal, the outputImag)
            in Inr (True, st, Some outputReal', Some outputImag'))))"

section \<open>freeFFT and freeCQT\<close>

definition freeFFT :: "engine \<Rightarrow> bool \<times> engine" where
  "freeFFT st =
     (True, st\<lparr>twiddleReal := None, twiddleImag := None, bitReversalIndices := None\<rparr>)"

definition freeCQT :: "engine \<Rightarrow> bool \<times> engine" where
  "freeCQT st = (True, st\<lparr>cqtKernelReal := [], cqtKernelImag := []\<rparr>)"

section \<open>Bit reversal as a function\<close>

text \<open>
  The reversal of the \<open>k\<close> low bits of \<open>i\<close>, by recursion on \<open>k\<close>: the lowest bit of \<open>i\<close>
  becomes the highest of the result. The code has no such function; the proofs use it
  to say what the table of \<open>initFFT\<close> holds.
\<close>

fun bitrev :: "nat \<Rightarrow> nat \<Rightarrow> nat" where
  "bitrev 0 i = 0"
| "bitrev (Suc k) i = (i mod 2) * 2 ^ k + bitrev k (i div 2)"

section \<open>The buffers as complex samples\<close>

text \<open>
  The two parallel buffers (and the two parallel twiddle tables) read as one sequence of
  complex numbers, and the value one butterfly stage of half-length \<open>half\<close> and twiddle
  stride \<open>step\<close> leaves at index \<open>p\<close>, from the buffers before the stage. Both serve the
  proofs about \<open>fft\<close>.
\<close>

definition cz :: "real list \<Rightarrow> real list \<Rightarrow> nat \<Rightarrow> complex" where
  "cz re im p = Complex (re ! p) (im ! p)"

definition stage_cz ::
  "real list \<Rightarrow> real list \<Rightarrow> nat \<Rightarrow> nat \<Rightarrow> real list \<Rightarrow> real list \<Rightarrow> nat \<Rightarrow> complex" where
  "stage_cz twr twi step half re im p =
     (if p mod (2 * half) < half
      then cz re im p + cz twr twi ((p mod (2 * half)) * step) * cz re im (p + half)
      else cz re im (p - half) - cz twr twi ((p mod (2 * half) - half) * step) * cz re im p)"

section \<open>The discrete Fourier transform\<close>

text \<open>
  The mathematics \<open>fft\<close> is measured against: the root of unity \<open>exp (-2 pi i e / n)\<close>,
  the transform of a sequence of \<open>n\<close> complex samples, and the transform of length \<open>2^s\<close>
  that block \<open>b\<close> of the buffers holds after \<open>s\<close> butterfly stages (of the samples whose
  index is the reversal of \<open>b\<close> modulo \<open>2^(k - s)\<close>).
\<close>

definition omega :: "nat \<Rightarrow> nat \<Rightarrow> complex" where
  "omega n e = cis (- 2 * pi * real e / real n)"

definition dft :: "nat \<Rightarrow> (nat \<Rightarrow> complex) \<Rightarrow> nat \<Rightarrow> complex" where
  "dft n x r = (\<Sum>m<n. x m * omega n (m * r))"

definition stage_dft :: "nat \<Rightarrow> (nat \<Rightarrow> complex) \<Rightarrow> nat \<Rightarrow> nat \<Rightarrow> nat \<Rightarrow> complex" where
  "stage_dft k x s b r =
     (\<Sum>m<2 ^ s. x (bitrev (k - s) b + m * 2 ^ (k - s)) * omega (2 ^ s) (m * r))"

section \<open>The inner product the specification describes\<close>

text \<open>
  The specification's words for the value \<open>cqt\<close> writes at a bin: the sum of the input
  samples times the conjugated kernel samples, scaled by \<open>1/n\<close>. It is kept apart from
  the model of the code, to be compared with it.
\<close>

definition conj_inner_product ::
  "real list \<Rightarrow> real list \<Rightarrow> real list \<Rightarrow> real list \<Rightarrow> nat \<Rightarrow> complex" where
  "conj_inner_product inputReal inputImag kernelReal kernelImag n =
     (\<Sum>i<n. Complex (inputReal ! i) (inputImag ! i) * cnj (Complex (kernelReal ! i) (kernelImag ! i)))
       / of_nat n"

section \<open>The bins the loop skips\<close>

text \<open>
  A bin is skipped when the body of the loop takes one of its two \<open>continue\<close>s: the
  frequency computed for the bin is not positive or is at or above \<open>sampleRate / 2\<close>, or
  the filter length, converted to \<open>int\<close> and clamped to \<open>n\<close>, is not positive.
\<close>

definition bin_skipped ::
  "'f arith \<Rightarrow> int \<Rightarrow> int \<Rightarrow> 'f \<Rightarrow> 'f \<Rightarrow> 'f \<Rightarrow> nat \<Rightarrow> bool" where
  "bin_skipped ar binsPerOctave n sampleRate minFreq Q k =
     (let freq = bin_freq_ar ar binsPerOctave minFreq k;
          filterLen0 = raw_filter_len ar Q sampleRate freq
      in fle ar freq (fconv ar 0) \<or> fle ar (fdiv ar sampleRate (fconv ar 2)) freq
         \<or> (- (2 ^ 31) \<le> filterLen0 \<and> filterLen0 < 2 ^ 31
             \<and> (if filterLen0 > n then n else filterLen0) \<le> 0))"

section \<open>Engines for the examples\<close>

text \<open>An engine as \<open>initFFT(2)\<close> builds it, with a bank of one kernel.\<close>

definition engine2 :: engine where
  "engine2 = \<lparr>twiddleReal = Some [1], twiddleImag = Some [0], bitReversalIndices = Some [0, 1],
     cqtKernelReal = [[1, 2]], cqtKernelImag = [[3, 4]]\<rparr>"

text \<open>A bank of one kernel of length 1, the imaginary unit.\<close>

definition engine_i :: engine where
  "engine_i = engine0\<lparr>cqtKernelReal := [[0]], cqtKernelImag := [[1]]\<rparr>"

text \<open>The engine \<open>initFFT(8)\<close> builds from the initial state.\<close>

definition engine8 :: engine where
  "engine8 = engine0\<lparr>twiddleReal := Some (map (\<lambda>i. cos (twiddle_angle 8 i)) [0..<4]),
     twiddleImag := Some (map (\<lambda>i. sin (twiddle_angle 8 i)) [0..<4]),
     bitReversalIndices := Some [0, 4, 2, 6, 1, 5, 3, 7]\<rparr>"

text \<open>
  The engine \<open>initFFT(4)\<close> builds from the initial state; the same with the bank of two
  zero kernels that \<open>initCQT(1, 2, 4, 100, 40)\<close> starts from, and with the bank that call
  leaves.
\<close>

definition engine4 :: engine where
  "engine4 = engine0\<lparr>twiddleReal := Some [1, 0], twiddleImag := Some [0, - 1],
     bitReversalIndices := Some [0, 2, 1, 3]\<rparr>"

definition engine4_zero :: engine where
  "engine4_zero = engine4\<lparr>cqtKernelReal := [[0, 0, 0, 0], [0, 0, 0, 0]],
     cqtKernelImag := [[0, 0, 0, 0], [0, 0, 0, 0]]\<rparr>"

definition engine4_bank :: engine where
  "engine4_bank = engine4\<lparr>cqtKernelReal := [[1, 0, - 1, 0], [0, 0, 0, 0]],
     cqtKernelImag := [[0, - 1, 0, 1], [0, 0, 0, 0]]\<rparr>"

section \<open>Calls on a null state, and the two teardowns\<close>

lemma fft_null:
  "twiddleReal st = None \<or> bitReversalIndices st = None \<Longrightarrow>
     fft st real_buf imag_buf n = Inr (False, st, real_buf, imag_buf)"
  by (auto simp: fft_def)

lemma ifft_null:
  "twiddleReal st = None \<or> bitReversalIndices st = None \<Longrightarrow>
     ifft st real_buf imag_buf n =
       (if \<not> isPowerOfTwo n \<or> real_buf = None \<or> imag_buf = None
          then Inr (False, st, real_buf, imag_buf)
        else if length (the imag_buf) < nat n then Inl OutOfBounds
        else Inr (False, st, real_buf, Some (map_first (nat n) uminus (the imag_buf))))"
  by (auto simp: ifft_def fft_null)

text \<open>
  C7. While the twiddle table or the bit-reversal table is null (as in the initial
  state, and as \<open>freeFFT\<close> leaves them), \<open>fft\<close> returns \<open>false\<close> from its guard and touches
  neither the engine nor the buffers; \<open>ifft\<close> returns \<open>false\<close> as well, from its own guard
  or from the guard of the \<open>fft\<close> it calls (the imaginary buffer is then left negated; a
  buffer shorter than \<open>n\<close> is out of the contract). \<open>freeFFT\<close> and \<open>freeCQT\<close> return \<open>true\<close>
  from every state, and a second call returns \<open>true\<close> and changes nothing.
\<close>

theorem null_state_and_teardown:
  "(twiddleReal st = None \<or> bitReversalIndices st = None \<longrightarrow>
      fft st real_buf imag_buf n = Inr (False, st, real_buf, imag_buf)
      \<and> ifft st real_buf imag_buf n =
          (if \<not> isPowerOfTwo n \<or> real_buf = None \<or> imag_buf = None
             then Inr (False, st, real_buf, imag_buf)
           else if length (the imag_buf) < nat n then Inl OutOfBounds
           else Inr (False, st, real_buf, Some (map_first (nat n) uminus (the imag_buf)))))
   \<and> fft engine0 real_buf imag_buf n = Inr (False, engine0, real_buf, imag_buf)
   \<and> fft (snd (freeFFT st)) real_buf imag_buf n
       = Inr (False, snd (freeFFT st), real_buf, imag_buf)
   \<and> fst (freeFFT st) \<and> twiddleReal (snd (freeFFT st)) = None
   \<and> twiddleImag (snd (freeFFT st)) = None
   \<and> bitReversalIndices (snd (freeFFT st)) = None
   \<and> freeFFT (snd (freeFFT st)) = (True, snd (freeFFT st))
   \<and> fst (freeCQT st) \<and> cqtKernelReal (snd (freeCQT st)) = []
   \<and> cqtKernelImag (snd (freeCQT st)) = []
   \<and> freeCQT (snd (freeCQT st)) = (True, snd (freeCQT st))"
  using fft_null[of st real_buf imag_buf n] ifft_null[of st real_buf imag_buf n]
    fft_null[of engine0 real_buf imag_buf n] fft_null[of "snd (freeFFT st)" real_buf imag_buf n]
  by (simp add: freeFFT_def freeCQT_def engine0_def)

theorem null_state_and_teardown_witness:
  "fft engine0 (Some [1, 2]) (Some [3, 4]) 2 = Inr (False, engine0, Some [1, 2], Some [3, 4])
   \<and> ifft engine0 (Some [1, 2]) (Some [3, 4]) 2 = Inr (False, engine0, Some [1, 2], Some [-3, -4])"
  using null_state_and_teardown[of engine0 "Some [1, 2]" "Some [3, 4]" 2]
  by (simp add: engine0_def isPowerOfTwo_def map_first_def)

section \<open>The transforms leave the engine as it is\<close>

lemma fft_engine: "fft st rb ib n = Inr (ok, st', rb', ib') \<Longrightarrow> st' = st"
  by (auto simp: fft_def Let_def split: if_splits option.splits prod.splits)

lemma ifft_engine: "ifft st rb ib n = Inr (ok, st', rb', ib') \<Longrightarrow> st' = st"
  by (auto simp: ifft_def Let_def split: if_splits sum.splits prod.splits dest: fft_engine)

lemma cqt_engine: "cqt st a b c d n bpo oct = Inr (ok, st', c', d') \<Longrightarrow> st' = st"
  by (auto simp: cqt_def Let_def split: if_splits prod.splits)

text \<open>
  C10. Whatever \<open>fft\<close>, \<open>ifft\<close> or \<open>cqt\<close> returns, \<open>true\<close> or \<open>false\<close>, the engine after the call
  (twiddle tables, bit-reversal table, kernel bank) is the engine before it; only the
  buffers in the result can differ.
\<close>

theorem transforms_keep_engine:
  "(fft st real_buf imag_buf n = Inr (ok, st', real_buf', imag_buf') \<longrightarrow> st' = st)
   \<and> (ifft st real_buf imag_buf n = Inr (ok, st', real_buf', imag_buf') \<longrightarrow> st' = st)
   \<and> (cqt st inputReal inputImag outputReal outputImag n binsPerOctave octaves
         = Inr (ok, st', outputReal', outputImag') \<longrightarrow> st' = st)"
  by (auto dest: fft_engine ifft_engine cqt_engine)

theorem transforms_keep_engine_witness:
  "fft engine2 (Some [1, 2]) (Some [0, 0]) 2 = Inr (True, engine2, Some [3, -1], Some [0, 0])
   \<and> ifft engine2 (Some [3, -1]) (Some [0, 0]) 2 = Inr (True, engine2, Some [1, 2], Some [0, 0])
   \<and> cqt engine2 (Some [1, 0]) (Some [0, 1]) (Some [9]) (Some [9]) 2 1 1
       = Inr (True, engine2, Some [-3/2], Some [5/2])"
  using transforms_keep_engine[of engine2 "Some [1, 2]" "Some [0, 0]" 2 True engine2
          "Some [3, -1]" "Some [0, 0]"]
  by (simp add: cqt_def cqt_in_bounds_def cqt_bins_def cqt_sum_def ifft_def map_first_def fft_def
        engine2_def isPowerOfTwo_def fft_fault_def upt_rec bit_reverse_pass_def
        bit_reverse_step_def swap_at_def fft_stages.simps butterfly_blocks.simps
        butterfly_block_def butterfly_def Let_def)

section \<open>A bank smaller than the request\<close>

text \<open>
  C5. When \<open>totalBins = binsPerOctave * octaves\<close> (a product that fits an \<open>int\<close>) is larger
  than the number of kernels in the bank, \<open>cqt\<close> returns \<open>false\<close> and the output buffers
  (and the engine) are as before the call.
\<close>

theorem cqt_bank_too_small:
  "int (length (cqtKernelReal st)) < binsPerOctave * octaves \<Longrightarrow>
   binsPerOctave * octaves < 2 ^ 31 \<Longrightarrow>
     cqt st inputReal inputImag outputReal outputImag n binsPerOctave octaves
       = Inr (False, st, outputReal, outputImag)"
  by (simp add: cqt_def Let_def)

theorem cqt_bank_too_small_witness:
  "cqt engine2 (Some [1, 0]) (Some [0, 1]) (Some [9, 9]) (Some [9, 9]) 2 2 1
     = Inr (False, engine2, Some [9, 9], Some [9, 9])"
  using cqt_bank_too_small[of engine2 2 1 "Some [1, 0]" "Some [0, 1]" "Some [9, 9]" "Some [9, 9]" 2]
  by (simp add: engine2_def)

section \<open>The two models of initCQT\<close>

text \<open>Over the arithmetic of the real numbers the second model of \<open>initCQT\<close> is the first.\<close>

lemma exact_ops [simp]:
  "fmul exact a b = a * b" "fdiv exact a b = a / b" "fsub exact a b = a - b"
  "fconv exact z = real_of_int z" "fpow exact x y = x powr y"
  "fle exact a b \<longleftrightarrow> a \<le> b" "fceil exact a = \<lceil>a\<rceil>" "fval exact a = a"
  by (simp_all add: exact_def)

lemma bin_freq_exact: "bin_freq_ar exact b mf k = bin_freq b mf k"
  by (simp add: bin_freq_ar_def bin_freq_def)

lemma cqt_Q_exact: "cqt_Q_ar exact b = cqt_Q b"
  by (simp add: cqt_Q_ar_def cqt_Q_den_ar_def cqt_Q_def)

lemma cqt_Q_den_exact: "0 < b \<Longrightarrow> 0 < cqt_Q_den_ar exact b"
proof -
  assume b: "0 < b"
  have "2 powr 0 < (2::real) powr (1 / real_of_int b)" using b by (intro powr_less_mono) simp_all
  then show ?thesis using b by (simp add: cqt_Q_den_ar_def)
qed

lemma initCQT_bin_exact:
  "initCQT_bin_ar exact b n sr mf Q k st = initCQT_bin b n sr mf Q k st"
  unfolding initCQT_bin_ar_def initCQT_bin_def bin_freq_exact raw_filter_len_def exact_ops
  by simp

lemma initCQT_bins_exact:
  "initCQT_bins_ar exact b n sr mf Q tb k st = initCQT_bins b n sr mf Q tb k st"
proof (induction b n sr mf Q tb k st rule: initCQT_bins.induct)
  case (1 b n sr mf Q tb k st)
  show ?case
    by (subst initCQT_bins_ar.simps, subst initCQT_bins.simps)
       (auto simp: initCQT_bin_exact "1.IH" split: sum.splits)
qed

lemma initCQT_exact:
  "initCQT_ar exact st b oct n sr mf = initCQT st b oct n sr mf"
  using cqt_Q_den_exact[of b]
  by (auto simp add: initCQT_ar_def initCQT_def initCQT_bins_exact cqt_Q_exact Let_def)


section \<open>Lengths that are not powers of two\<close>

lemma initCQT_bin_ar_non_pow2:
  "\<not> isPowerOfTwo n \<Longrightarrow> initCQT_bin_ar ar b n sr mf Q k st = Inr (go, st') \<Longrightarrow>
     st' = st \<and> (go \<longleftrightarrow> bin_skipped ar b n sr mf Q k)"
  by (auto simp: initCQT_bin_ar_def bin_skipped_def Let_def fft_def split: if_splits prod.splits)

lemma initCQT_bin_ar_skipped:
  "bin_skipped ar b n sr mf Q k \<Longrightarrow> initCQT_bin_ar ar b n sr mf Q k st = Inr (True, st)"
  by (auto simp: initCQT_bin_ar_def bin_skipped_def Let_def split: if_splits)

lemma initCQT_bins_ar_non_pow2:
  "\<not> isPowerOfTwo n \<Longrightarrow> initCQT_bins_ar ar b n sr mf Q tb k st = Inr (ok, st') \<Longrightarrow>
     st' = st \<and> (ok \<longleftrightarrow> (\<forall>j. k \<le> j \<and> j < tb \<longrightarrow> bin_skipped ar b n sr mf Q j))"
proof (induction ar b n sr mf Q tb k st rule: initCQT_bins_ar.induct)
  case (1 ar b n sr mf Q tb k st)
  show ?case
  proof (cases "k < tb")
    case False
    with "1.prems" show ?thesis by (auto simp add: initCQT_bins_ar.simps)
  next
    case True
    show ?thesis
    proof (cases "initCQT_bin_ar ar b n sr mf Q k st")
      case (Inl f)
      with True "1.prems" show ?thesis by (simp add: initCQT_bins_ar.simps)
    next
      case (Inr r)
      obtain go st1 where r: "r = (go, st1)" by (cases r)
      have bin: "st1 = st" "go \<longleftrightarrow> bin_skipped ar b n sr mf Q k"
        using initCQT_bin_ar_non_pow2[OF "1.prems"(1), of ar b sr mf Q k st go st1] Inr r by simp_all
      show ?thesis
      proof (cases go)
        case True
        have "initCQT_bins_ar ar b n sr mf Q tb (Suc k) st1 = Inr (ok, st')"
          using "1.prems"(2) \<open>k < tb\<close> Inr r True by (simp add: initCQT_bins_ar.simps)
        from "1.IH"[OF \<open>k < tb\<close> Inr r[symmetric] True "1.prems"(1) this] bin(1)
        have ih: "st' = st" "ok \<longleftrightarrow> (\<forall>j. Suc k \<le> j \<and> j < tb \<longrightarrow> bin_skipped ar b n sr mf Q j)"
          by simp_all
        have "(\<forall>j. k \<le> j \<and> j < tb \<longrightarrow> bin_skipped ar b n sr mf Q j)
           \<longleftrightarrow> (\<forall>j. Suc k \<le> j \<and> j < tb \<longrightarrow> bin_skipped ar b n sr mf Q j)"
          using bin(2) True by (metis Suc_leI le_neq_implies_less Suc_leD)
        with ih show ?thesis by simp
      next
        case False
        have "ok = False" "st' = st"
          using "1.prems"(2) \<open>k < tb\<close> Inr r bin(1) False by (simp_all add: initCQT_bins_ar.simps)
        moreover have "\<not> bin_skipped ar b n sr mf Q k" using bin(2) False by simp
        ultimately show ?thesis using \<open>k < tb\<close> by auto
      qed
    qed
  qed
qed

lemma initCQT_bins_ar_all_skipped:
  "(\<And>j. k \<le> j \<Longrightarrow> j < tb \<Longrightarrow> bin_skipped ar b n sr mf Q j) \<Longrightarrow>
     initCQT_bins_ar ar b n sr mf Q tb k st = Inr (True, st)"
proof (induction ar b n sr mf Q tb k st rule: initCQT_bins_ar.induct)
  case (1 ar b n sr mf Q tb k st)
  show ?case
  proof (cases "k < tb")
    case False
    then show ?thesis by (simp add: initCQT_bins_ar.simps)
  next
    case True
    have bin: "initCQT_bin_ar ar b n sr mf Q k st = Inr (True, st)"
      using "1.prems"[of k] True by (simp add: initCQT_bin_ar_skipped)
    have "initCQT_bins_ar ar b n sr mf Q tb (Suc k) st = Inr (True, st)"
      using "1.prems" by (intro "1.IH"[OF True bin refl TrueI]) simp_all
    with True bin show ?thesis by (simp add: initCQT_bins_ar.simps[of _ _ _ _ _ _ _ k])
  qed
qed

lemma initCQT_bin_ar_fails:
  assumes "\<not> isPowerOfTwo n" "\<not> bin_skipped ar b n sr mf Q k"
    and "- (2 ^ 31) \<le> raw_filter_len ar Q sr (bin_freq_ar ar b mf k)"
    and "raw_filter_len ar Q sr (bin_freq_ar ar b mf k) < 2 ^ 31"
    and "(if raw_filter_len ar Q sr (bin_freq_ar ar b mf k) > n then n
          else raw_filter_len ar Q sr (bin_freq_ar ar b mf k)) \<noteq> 1"
  shows "initCQT_bin_ar ar b n sr mf Q k st = Inr (False, st)"
  using assms
  by (auto simp: initCQT_bin_ar_def bin_skipped_def Let_def fft_def split: if_splits prod.splits)

text \<open>
  C2, as the code has it. For \<open>n\<close> not a power of two, \<open>initFFT\<close>, \<open>fft\<close> and \<open>ifft\<close> return
  \<open>false\<close> and leave the engine and the buffers as they were. \<open>initCQT\<close> tests \<open>n\<close> for
  being positive only: past its guard it resizes the bank and writes no kernel, and it
  returns \<open>true\<close> exactly when every bin is skipped; when every bin is skipped it does
  return \<open>true\<close>. The body of the loop leaves the engine as it is and goes on exactly
  at a skipped bin: at a skipped bin it goes on, and at a bin that is not skipped
  (with a filter length that fits an \<open>int\<close> and is not 1, so that the body is defined) it
  fails, because the \<open>fft\<close> it calls rejects \<open>n\<close>. All of this holds in every arithmetic.
\<close>

theorem non_power_of_two_rejected:
  assumes "\<not> isPowerOfTwo n"
  shows "initFFT st okRe okIm okBr n = Inr (False, st)
    \<and> fft st real_buf imag_buf n = Inr (False, st, real_buf, imag_buf)
    \<and> ifft st real_buf imag_buf n = Inr (False, st, real_buf, imag_buf)
    \<and> (initCQT_ar ar st binsPerOctave octaves n sampleRate minFreq = Inr (ok, st') \<longrightarrow>
         (if binsPerOctave \<le> 0 \<or> octaves \<le> 0 \<or> n \<le> 0
             \<or> fle ar sampleRate (fconv ar 0) \<or> fle ar minFreq (fconv ar 0)
          then \<not> ok \<and> st' = st
          else st' = st\<lparr>cqtKernelReal :=
                          resize_bank (nat (binsPerOctave * octaves)) (nat n) (cqtKernelReal st),
                        cqtKernelImag :=
                          resize_bank (nat (binsPerOctave * octaves)) (nat n) (cqtKernelImag st)\<rparr>
             \<and> (ok \<longleftrightarrow> (\<forall>k < nat (binsPerOctave * octaves).
                   bin_skipped ar binsPerOctave n sampleRate minFreq (cqt_Q_ar ar binsPerOctave) k))))
    \<and> (\<not> (binsPerOctave \<le> 0 \<or> octaves \<le> 0 \<or> n \<le> 0
             \<or> fle ar sampleRate (fconv ar 0) \<or> fle ar minFreq (fconv ar 0))
         \<and> binsPerOctave * octaves < 2 ^ 31
         \<and> \<not> (fle ar (cqt_Q_den_ar ar binsPerOctave) (fconv ar 0)
               \<and> fle ar (fconv ar 0) (cqt_Q_den_ar ar binsPerOctave))
         \<and> (\<forall>k < nat (binsPerOctave * octaves).
               bin_skipped ar binsPerOctave n sampleRate minFreq (cqt_Q_ar ar binsPerOctave) k) \<longrightarrow>
         initCQT_ar ar st binsPerOctave octaves n sampleRate minFreq
           = Inr (True, st\<lparr>cqtKernelReal :=
                          resize_bank (nat (binsPerOctave * octaves)) (nat n) (cqtKernelReal st),
                        cqtKernelImag :=
                          resize_bank (nat (binsPerOctave * octaves)) (nat n) (cqtKernelImag st)\<rparr>))
    \<and> (initCQT_bin_ar ar binsPerOctave n sampleRate minFreq Q j s = Inr (go, s') \<longrightarrow>
         s' = s \<and> (go \<longleftrightarrow> bin_skipped ar binsPerOctave n sampleRate minFreq Q j))
    \<and> (bin_skipped ar binsPerOctave n sampleRate minFreq Q j \<longrightarrow>
         initCQT_bin_ar ar binsPerOctave n sampleRate minFreq Q j s = Inr (True, s))
    \<and> (\<not> bin_skipped ar binsPerOctave n sampleRate minFreq Q j
         \<and> - (2 ^ 31) \<le> raw_filter_len ar Q sampleRate (bin_freq_ar ar binsPerOctave minFreq j)
         \<and> raw_filter_len ar Q sampleRate (bin_freq_ar ar binsPerOctave minFreq j) < 2 ^ 31
         \<and> (if raw_filter_len ar Q sampleRate (bin_freq_ar ar binsPerOctave minFreq j) > n then n
             else raw_filter_len ar Q sampleRate (bin_freq_ar ar binsPerOctave minFreq j)) \<noteq> 1 \<longrightarrow>
         initCQT_bin_ar ar binsPerOctave n sampleRate minFreq Q j s = Inr (False, s))"
proof -
  let ?guard = "binsPerOctave \<le> 0 \<or> octaves \<le> 0 \<or> n \<le> 0
             \<or> fle ar sampleRate (fconv ar 0) \<or> fle ar minFreq (fconv ar 0)"
  let ?tb = "nat (binsPerOctave * octaves)"
  let ?st1 = "st\<lparr>cqtKernelReal := resize_bank ?tb (nat n) (cqtKernelReal st),
                 cqtKernelImag := resize_bank ?tb (nat n) (cqtKernelImag st)\<rparr>"
  let ?skipped = "\<lambda>Q k. bin_skipped ar binsPerOctave n sampleRate minFreq Q k"
  let ?len = "raw_filter_len ar Q sampleRate (bin_freq_ar ar binsPerOctave minFreq j)"
  have a: "initFFT st okRe okIm okBr n = Inr (False, st)"
    using assms by (simp add: initFFT_def)
  have b: "fft st real_buf imag_buf n = Inr (False, st, real_buf, imag_buf)"
    using assms by (simp add: fft_def)
  have c: "ifft st real_buf imag_buf n = Inr (False, st, real_buf, imag_buf)"
    using assms by (simp add: ifft_def)
  have d: "initCQT_ar ar st binsPerOctave octaves n sampleRate minFreq = Inr (ok, st') \<longrightarrow>
         (if ?guard then \<not> ok \<and> st' = st
          else st' = ?st1 \<and> (ok \<longleftrightarrow> (\<forall>k < ?tb. ?skipped (cqt_Q_ar ar binsPerOctave) k)))"
  proof (intro impI)
    assume r: "initCQT_ar ar st binsPerOctave octaves n sampleRate minFreq = Inr (ok, st')"
    show "if ?guard then \<not> ok \<and> st' = st
          else st' = ?st1 \<and> (ok \<longleftrightarrow> (\<forall>k < ?tb. ?skipped (cqt_Q_ar ar binsPerOctave) k))"
    proof (cases ?guard)
      case True
      with r have "\<not> ok \<and> st' = st" by (auto simp: initCQT_ar_def)
      with True show ?thesis by simp
    next
      case False
      with r have "initCQT_bins_ar ar binsPerOctave n sampleRate minFreq (cqt_Q_ar ar binsPerOctave)
                       ?tb 0 ?st1 = Inr (ok, st')"
        by (simp add: initCQT_ar_def Let_def split: if_splits)
      from initCQT_bins_ar_non_pow2[OF assms this] False show ?thesis by simp
    qed
  qed
  have e: "\<not> ?guard \<and> binsPerOctave * octaves < 2 ^ 31
         \<and> \<not> (fle ar (cqt_Q_den_ar ar binsPerOctave) (fconv ar 0)
               \<and> fle ar (fconv ar 0) (cqt_Q_den_ar ar binsPerOctave))
         \<and> (\<forall>k < ?tb. ?skipped (cqt_Q_ar ar binsPerOctave) k) \<longrightarrow>
         initCQT_ar ar st binsPerOctave octaves n sampleRate minFreq = Inr (True, ?st1)"
  proof (intro impI, elim conjE)
    assume g: "\<not> ?guard" and p: "binsPerOctave * octaves < 2 ^ 31"
      and q: "\<not> (fle ar (cqt_Q_den_ar ar binsPerOctave) (fconv ar 0)
               \<and> fle ar (fconv ar 0) (cqt_Q_den_ar ar binsPerOctave))"
      and sk: "\<forall>k < ?tb. ?skipped (cqt_Q_ar ar binsPerOctave) k"
    have "initCQT_bins_ar ar binsPerOctave n sampleRate minFreq (cqt_Q_ar ar binsPerOctave)
            ?tb 0 ?st1 = Inr (True, ?st1)"
      using sk by (intro initCQT_bins_ar_all_skipped) simp
    with g p q show "initCQT_ar ar st binsPerOctave octaves n sampleRate minFreq = Inr (True, ?st1)"
      by (simp add: initCQT_ar_def Let_def)
  qed
  have f: "initCQT_bin_ar ar binsPerOctave n sampleRate minFreq Q j s = Inr (go, s') \<longrightarrow>
         s' = s \<and> (go \<longleftrightarrow> ?skipped Q j)"
  proof (intro impI)
    assume "initCQT_bin_ar ar binsPerOctave n sampleRate minFreq Q j s = Inr (go, s')"
    from initCQT_bin_ar_non_pow2[OF assms this] show "s' = s \<and> (go \<longleftrightarrow> ?skipped Q j)" .
  qed
  have g: "?skipped Q j \<longrightarrow> initCQT_bin_ar ar binsPerOctave n sampleRate minFreq Q j s = Inr (True, s)"
    by (simp add: initCQT_bin_ar_skipped)
  have h: "\<not> ?skipped Q j \<and> - (2 ^ 31) \<le> ?len \<and> ?len < 2 ^ 31
         \<and> (if ?len > n then n else ?len) \<noteq> 1 \<longrightarrow>
         initCQT_bin_ar ar binsPerOctave n sampleRate minFreq Q j s = Inr (False, s)"
  proof (intro impI, elim conjE)
    assume "\<not> ?skipped Q j" "- (2 ^ 31) \<le> ?len" "?len < 2 ^ 31" "(if ?len > n then n else ?len) \<noteq> 1"
    then show "initCQT_bin_ar ar binsPerOctave n sampleRate minFreq Q j s = Inr (False, s)"
      by (rule initCQT_bin_ar_fails[OF assms])
  qed
  from a b c d e f g h show ?thesis by (intro conjI)
qed

text \<open>
  C2 as stated fails for \<open>initCQT\<close>: with \<open>n = 3\<close> and the only bin at 60 Hz, above the
  Nyquist frequency 50 Hz, the call returns \<open>true\<close> and has resized the empty bank.
\<close>

theorem non_power_of_two_counterexample:
  "\<not> isPowerOfTwo 3
   \<and> initCQT engine0 1 1 3 100 60
       = Inr (True, engine0\<lparr>cqtKernelReal := [[0, 0, 0]], cqtKernelImag := [[0, 0, 0]]\<rparr>)"
  by (simp add: isPowerOfTwo_def initCQT_def initCQT_bins.simps initCQT_bin_def bin_freq_def
        resize_bank_def engine0_def Let_def numeral_eq_Suc)

lemma initCQT_6_30:
  "initCQT_ar exact engine0 1 1 6 100 30
     = Inr (False, engine0\<lparr>cqtKernelReal := [[0, 0, 0, 0, 0, 0]], cqtKernelImag := [[0, 0, 0, 0, 0, 0]]\<rparr>)"
  by (simp add: initCQT_exact isPowerOfTwo_def initCQT_def initCQT_bins.simps initCQT_bin_def bin_freq_def cqt_Q_def
        resize_bank_def engine0_def Let_def numeral_eq_Suc fft_def kernel_samples_def split: prod.splits)

lemma skipped_6_30: "\<not> bin_skipped exact 1 6 100 30 (cqt_Q_ar exact 1) 0"
proof -
  have q: "cqt_Q_ar exact 1 = 1" by (simp add: cqt_Q_exact cqt_Q_def)
  have f: "bin_freq_ar exact 1 30 0 = 30" by (simp add: bin_freq_exact bin_freq_def)
  have l: "raw_filter_len exact 1 100 30 = 4" by (simp add: raw_filter_len_def)
  show ?thesis unfolding bin_skipped_def q f l Let_def by simp
qed


lemma len_6_30: "raw_filter_len exact (cqt_Q_ar exact 1) 100 (bin_freq_ar exact 1 30 0) = 4"
proof -
  have q: "cqt_Q_ar exact 1 = 1" by (simp add: cqt_Q_exact cqt_Q_def)
  have f: "bin_freq_ar exact 1 30 0 = 30" by (simp add: bin_freq_exact bin_freq_def)
  show ?thesis unfolding q f by (simp add: raw_filter_len_def)
qed

lemma skipped_3_60: "bin_skipped exact 1 3 100 60 (cqt_Q_ar exact 1) 0"
proof -
  have f: "bin_freq_ar exact 1 60 0 = 60" by (simp add: bin_freq_exact bin_freq_def)
  show ?thesis unfolding bin_skipped_def f Let_def by simp
qed

lemma bank_3:
  "engine0\<lparr>cqtKernelReal := resize_bank (nat (1 * 1)) (nat 3) (cqtKernelReal engine0),
           cqtKernelImag := resize_bank (nat (1 * 1)) (nat 3) (cqtKernelImag engine0)\<rparr>
     = engine0\<lparr>cqtKernelReal := [[0, 0, 0]], cqtKernelImag := [[0, 0, 0]]\<rparr>"
  by (simp add: resize_bank_def engine0_def numeral_eq_Suc)

text \<open>
  With \<open>n = 6\<close> and the only bin at 30 Hz, below the Nyquist frequency 50 Hz, the bin is
  not skipped (its filter has length 4) and \<open>initCQT\<close> fails, the bank resized; with
  \<open>n = 3\<close> and the only bin at 60 Hz the bin is skipped and \<open>initCQT\<close> succeeds. Every
  operation the two calls make before \<open>fft\<close> is exact in binary32.
\<close>

theorem non_power_of_two_rejected_witness:
  "\<not> isPowerOfTwo 6
   \<and> initFFT engine0 True True True 6 = Inr (False, engine0)
   \<and> fft engine0 (Some [1, 2, 3, 4, 5, 6]) (Some [0, 0, 0, 0, 0, 0]) 6
       = Inr (False, engine0, Some [1, 2, 3, 4, 5, 6], Some [0, 0, 0, 0, 0, 0])
   \<and> ifft engine0 (Some [1, 2, 3, 4, 5, 6]) (Some [0, 0, 0, 0, 0, 0]) 6
       = Inr (False, engine0, Some [1, 2, 3, 4, 5, 6], Some [0, 0, 0, 0, 0, 0])
   \<and> \<not> bin_skipped exact 1 6 100 30 (cqt_Q_ar exact 1) 0
   \<and> raw_filter_len exact (cqt_Q_ar exact 1) 100 (bin_freq_ar exact 1 30 0) = 4
   \<and> initCQT_bin_ar exact 1 6 100 30 (cqt_Q_ar exact 1) 0 engine0 = Inr (False, engine0)
   \<and> initCQT_ar exact engine0 1 1 6 100 30
       = Inr (False, engine0\<lparr>cqtKernelReal := [[0, 0, 0, 0, 0, 0]], cqtKernelImag := [[0, 0, 0, 0, 0, 0]]\<rparr>)
   \<and> \<not> isPowerOfTwo 3
   \<and> bin_skipped exact 1 3 100 60 (cqt_Q_ar exact 1) 0
   \<and> initCQT_ar exact engine0 1 1 3 100 60
       = Inr (True, engine0\<lparr>cqtKernelReal := [[0, 0, 0]], cqtKernelImag := [[0, 0, 0]]\<rparr>)"
proof -
  have n: "\<not> isPowerOfTwo 6" by (simp add: isPowerOfTwo_def)
  have m: "\<not> isPowerOfTwo 3" by (simp add: isPowerOfTwo_def)
  note six = non_power_of_two_rejected[OF n, where st = engine0 and okRe = True and okIm = True and okBr = True
      and real_buf = "Some [1, 2, 3, 4, 5, 6]" and imag_buf = "Some [0, 0, 0, 0, 0, 0]"
      and ar = exact and binsPerOctave = 1 and sampleRate = 100 and minFreq = 30
      and Q = "cqt_Q_ar exact 1" and j = 0 and s = engine0]
  note three = non_power_of_two_rejected[OF m, where st = engine0 and ar = exact and binsPerOctave = 1 and octaves = 1
      and sampleRate = 100 and minFreq = 60]
  have a: "initFFT engine0 True True True 6 = Inr (False, engine0)"
    by (rule six[THEN conjunct1])
  have b: "fft engine0 (Some [1, 2, 3, 4, 5, 6]) (Some [0, 0, 0, 0, 0, 0]) 6
       = Inr (False, engine0, Some [1, 2, 3, 4, 5, 6], Some [0, 0, 0, 0, 0, 0])"
    by (rule six[THEN conjunct2, THEN conjunct1])
  have c: "ifft engine0 (Some [1, 2, 3, 4, 5, 6]) (Some [0, 0, 0, 0, 0, 0]) 6
       = Inr (False, engine0, Some [1, 2, 3, 4, 5, 6], Some [0, 0, 0, 0, 0, 0])"
    by (rule six[THEN conjunct2, THEN conjunct2, THEN conjunct1])
  have p: "\<not> bin_skipped exact 1 6 100 30 (cqt_Q_ar exact 1) 0
         \<and> - (2 ^ 31) \<le> raw_filter_len exact (cqt_Q_ar exact 1) 100 (bin_freq_ar exact 1 30 0)
         \<and> raw_filter_len exact (cqt_Q_ar exact 1) 100 (bin_freq_ar exact 1 30 0) < 2 ^ 31
         \<and> (if raw_filter_len exact (cqt_Q_ar exact 1) 100 (bin_freq_ar exact 1 30 0) > 6 then 6
             else raw_filter_len exact (cqt_Q_ar exact 1) 100 (bin_freq_ar exact 1 30 0)) \<noteq> 1"
    unfolding len_6_30 using skipped_6_30 by simp
  have d: "initCQT_bin_ar exact 1 6 100 30 (cqt_Q_ar exact 1) 0 engine0 = Inr (False, engine0)"
    by (rule six[THEN conjunct2, THEN conjunct2, THEN conjunct2, THEN conjunct2, THEN conjunct2,
          THEN conjunct2, THEN conjunct2, rule_format, OF p])
  have q: "\<not> (1 \<le> (0::int) \<or> 1 \<le> (0::int) \<or> 3 \<le> (0::int)
             \<or> fle exact 100 (fconv exact 0) \<or> fle exact 60 (fconv exact 0))
         \<and> (1::int) * 1 < 2 ^ 31
         \<and> \<not> (fle exact (cqt_Q_den_ar exact 1) (fconv exact 0)
               \<and> fle exact (fconv exact 0) (cqt_Q_den_ar exact 1))
         \<and> (\<forall>k < nat (1 * 1). bin_skipped exact 1 3 100 60 (cqt_Q_ar exact 1) k)"
    using skipped_3_60 cqt_Q_den_exact[of 1] by simp
  have e: "initCQT_ar exact engine0 1 1 3 100 60
       = Inr (True, engine0\<lparr>cqtKernelReal := [[0, 0, 0]], cqtKernelImag := [[0, 0, 0]]\<rparr>)"
    using three[THEN conjunct2, THEN conjunct2, THEN conjunct2, THEN conjunct2, THEN conjunct1,
          rule_format, OF q]
    unfolding bank_3 .
  from n a b c skipped_6_30 len_6_30 d initCQT_6_30 m skipped_3_60 e show ?thesis by (intro conjI)
qed


section \<open>What cqt writes\<close>

lemma cqt_sum_eq:
  "cqt_sum a b c d n =
     (\<Sum>i<n. a ! i * c ! i - b ! i * d ! i, \<Sum>i<n. a ! i * d ! i + b ! i * c ! i)"
  unfolding cqt_sum_def by (induction n) simp_all

lemma cqt_sum_complex:
  "Complex (fst (cqt_sum a b c d n)) (snd (cqt_sum a b c d n))
     = (\<Sum>i<n. Complex (a ! i) (b ! i) * Complex (c ! i) (d ! i))"
  by (simp add: cqt_sum_eq complex_eq_iff)

lemma cqt_bins_length:
  "length (fst (cqt_bins st a b n tb (outRe, outIm))) = length outRe
   \<and> length (snd (cqt_bins st a b n tb (outRe, outIm))) = length outIm"
  unfolding cqt_bins_def by (induction tb) (auto simp: Let_def split: prod.splits)

lemma cqt_bins_nth:
  assumes "tb \<le> length outRe" "tb \<le> length outIm"
  shows "fst (cqt_bins st a b n tb (outRe, outIm)) ! k =
           (if k < tb then fst (cqt_sum a b (cqtKernelReal st ! k) (cqtKernelImag st ! k) n) * (1 / real n)
            else outRe ! k)
       \<and> snd (cqt_bins st a b n tb (outRe, outIm)) ! k =
           (if k < tb then snd (cqt_sum a b (cqtKernelReal st ! k) (cqtKernelImag st ! k) n) * (1 / real n)
            else outIm ! k)"
  using assms
proof (induction tb)
  case 0
  then show ?case by (simp add: cqt_bins_def)
next
  case (Suc tb)
  obtain r i where ri: "cqt_bins st a b n tb (outRe, outIm) = (r, i)" by (cases "cqt_bins st a b n tb (outRe, outIm)")
  have len: "length r = length outRe" "length i = length outIm"
    using cqt_bins_length[of st a b n tb outRe outIm] ri by simp_all
  have step: "cqt_bins st a b n (Suc tb) (outRe, outIm) =
     (r[tb := fst (cqt_sum a b (cqtKernelReal st ! tb) (cqtKernelImag st ! tb) n) * (1 / real n)],
      i[tb := snd (cqt_sum a b (cqtKernelReal st ! tb) (cqtKernelImag st ! tb) n) * (1 / real n)])"
    using ri by (simp add: cqt_bins_def Let_def split: prod.splits)
  from Suc have ih: "r ! k = (if k < tb then fst (cqt_sum a b (cqtKernelReal st ! k) (cqtKernelImag st ! k) n) * (1 / real n)
            else outRe ! k)" "i ! k = (if k < tb then snd (cqt_sum a b (cqtKernelReal st ! k) (cqtKernelImag st ! k) n) * (1 / real n)
            else outIm ! k)" using ri by simp_all
  show ?case
    unfolding step using ih len Suc.prems by (auto simp: nth_list_update less_Suc_eq)
qed

text \<open>
  C8, as the code has it. After a successful \<open>cqt\<close>, the outputs at each bin
  \<open>k < totalBins\<close> are the real and imaginary parts of the sum of the plain complex
  products of the input samples and the samples of kernel \<open>k\<close>, divided by \<open>n\<close>: the
  kernel is not conjugated.
\<close>

theorem cqt_output:
  assumes "cqt st inputReal inputImag outputReal outputImag n binsPerOctave octaves
             = Inr (True, st', outputReal', outputImag')"
    and "k < nat (binsPerOctave * octaves)"
  shows "Complex (the outputReal' ! k) (the outputImag' ! k)
           = (\<Sum>i<nat n. Complex (the inputReal ! i) (the inputImag ! i)
                          * Complex (cqtKernelReal st ! k ! i) (cqtKernelImag st ! k ! i))
               / of_int n"
proof -
  let ?tb = "nat (binsPerOctave * octaves)"
  let ?res = "cqt_bins st (the inputReal) (the inputImag) (nat n) ?tb (the outputReal, the outputImag)"
  from assms(1) have npos: "0 < n"
    and ib: "cqt_in_bounds st (the inputReal) (the inputImag) (the outputReal) (the outputImag) (nat n) ?tb"
    and out: "outputReal' = Some (fst ?res)" "outputImag' = Some (snd ?res)"
    by (auto simp: cqt_def Let_def split: if_splits prod.splits)
  from ib have le: "?tb \<le> length (the outputReal)" "?tb \<le> length (the outputImag)"
    by (simp_all add: cqt_in_bounds_def)
  let ?s = "cqt_sum (the inputReal) (the inputImag) (cqtKernelReal st ! k) (cqtKernelImag st ! k) (nat n)"
  have "Complex (the outputReal' ! k) (the outputImag' ! k) = Complex (fst ?s * (1 / real (nat n))) (snd ?s * (1 / real (nat n)))"
    using cqt_bins_nth[OF le, of st "the inputReal" "the inputImag" "nat n" k] assms(2) out by simp
  also have "\<dots> = Complex (fst ?s) (snd ?s) / of_int n"
    using npos by (simp add: complex_eq_iff)
  finally show ?thesis by (simp only: cqt_sum_complex)
qed

text \<open>
  C8 as stated fails: with \<open>n = 1\<close>, the input sample \<open>i\<close> and the kernel sample \<open>i\<close>, the
  code writes \<open>i * i = -1\<close>, and the conjugated inner product is \<open>i * cnj i = 1\<close>.
\<close>

theorem cqt_output_counterexample:
  "cqt engine_i (Some [0]) (Some [1]) (Some [0]) (Some [0]) 1 1 1
     = Inr (True, engine_i, Some [- 1], Some [0])
   \<and> conj_inner_product [0] [1] (cqtKernelReal engine_i ! 0) (cqtKernelImag engine_i ! 0) 1 = Complex 1 0"
  by (simp add: cqt_def engine_i_def engine0_def cqt_in_bounds_def cqt_bins_def cqt_sum_def
       conj_inner_product_def Let_def complex_eq_iff)

theorem cqt_output_witness:
  "cqt engine2 (Some [1, 0]) (Some [0, 1]) (Some [9]) (Some [9]) 2 1 1
     = Inr (True, engine2, Some [-3/2], Some [5/2])
   \<and> (0::nat) < nat (1 * 1)
   \<and> Complex (- 3 / 2) (5 / 2) = (Complex 1 0 * Complex 1 3 + Complex 0 1 * Complex 2 4) / 2"
  using cqt_output[of engine2 "Some [1, 0]" "Some [0, 1]" "Some [9]" "Some [9]" 2 1 1 engine2
          "Some [-3/2]" "Some [5/2]" 0]
  by (simp add: cqt_def cqt_in_bounds_def cqt_bins_def cqt_sum_def engine2_def Let_def
        lessThan_Suc numeral_2_eq_2)


section \<open>The window of a filter of length 1\<close>

lemma initCQT_bin_div0:
  assumes "0 < bin_freq b mf k" "bin_freq b mf k < sr / 2"
    and "\<lceil>Q * sr / bin_freq b mf k\<rceil> < 2 ^ 31"
    and "(if \<lceil>Q * sr / bin_freq b mf k\<rceil> > n then n else \<lceil>Q * sr / bin_freq b mf k\<rceil>) = 1"
  shows "initCQT_bin b n sr mf Q k st = Inl DivisionByZero"
proof -
  define c where "c = \<lceil>Q * sr / bin_freq b mf k\<rceil>"
  have c: "c < 2 ^ 31" "(if c > n then n else c) = 1"
    using assms(3,4) by (simp_all only: c_def)
  then have "\<not> c < - (2 ^ 31)" "\<not> 2 ^ 31 \<le> c"
    by (auto split: if_splits)
  with c(2) assms(1,2) show ?thesis
    unfolding initCQT_bin_def Let_def c_def[symmetric] by (auto split: if_splits)
qed

text \<open>
  C9. A bin in range whose filter length after the clamp to \<open>n\<close> is 1 divides by
  \<open>filterLen - 1 = 0\<close>: the body of the loop stops with \<open>DivisionByZero\<close>, and so does the
  loop when it is at that bin. Positive arguments reach it: \<open>initCQT(1, 1, 1, 100, 10)\<close>
  does, from every engine state.
\<close>

theorem window_division_by_zero:
  "(0 < bin_freq binsPerOctave minFreq k \<and> bin_freq binsPerOctave minFreq k < sampleRate / 2
      \<and> \<lceil>Q * sampleRate / bin_freq binsPerOctave minFreq k\<rceil> < 2 ^ 31
      \<and> (if \<lceil>Q * sampleRate / bin_freq binsPerOctave minFreq k\<rceil> > n then n
          else \<lceil>Q * sampleRate / bin_freq binsPerOctave minFreq k\<rceil>) = 1
     \<longrightarrow> initCQT_bin binsPerOctave n sampleRate minFreq Q k st = Inl DivisionByZero
         \<and> (k < totalBins \<longrightarrow>
              initCQT_bins binsPerOctave n sampleRate minFreq Q totalBins k st = Inl DivisionByZero))
   \<and> initCQT st 1 1 1 100 10 = Inl DivisionByZero"
proof -
  have "initCQT st 1 1 1 100 10 = Inl DivisionByZero"
    by (simp add: initCQT_def initCQT_bins.simps[of _ _ _ _ _ _ 0] initCQT_bin_def bin_freq_def cqt_Q_def Let_def)
  then show ?thesis
    using initCQT_bin_div0[of binsPerOctave minFreq k sampleRate Q n st]
    by (auto simp: initCQT_bins.simps[of _ _ _ _ _ _ k])
qed

theorem window_division_by_zero_witness:
  "0 < bin_freq 1 10 0 \<and> bin_freq 1 10 0 < 100 / 2
   \<and> \<lceil>cqt_Q 1 * 100 / bin_freq 1 10 0\<rceil> = 10
   \<and> initCQT_bin 1 1 100 10 (cqt_Q 1) 0 engine0 = Inl DivisionByZero
   \<and> initCQT_bins 1 1 100 10 (cqt_Q 1) 1 0 engine0 = Inl DivisionByZero"
  using window_division_by_zero[of 1 10 0 100 "cqt_Q 1" 1 engine0 1]
  by (simp add: bin_freq_def cqt_Q_def)

text \<open>
  In exact arithmetic \<open>Q \<ge> 1\<close>, so the ceiling is at least 3 for every bin in range:
  the filter length 1 comes from the clamp to \<open>n = 1\<close>.
\<close>

lemma cqt_Q_ge_1: "0 < b \<Longrightarrow> 1 \<le> cqt_Q b"
proof -
  assume b: "0 < b"
  have "1 / real_of_int b \<le> 1" using b by simp
  then have "2 powr (1 / real_of_int b) \<le> 2 powr 1" by (intro powr_mono) simp_all
  moreover have "2 powr 0 < (2::real) powr (1 / real_of_int b)" using b by (intro powr_less_mono) simp_all
  ultimately have "0 < 2 powr (1 / real_of_int b) - 1" "2 powr (1 / real_of_int b) - 1 \<le> 1" by simp_all
  then show ?thesis unfolding cqt_Q_def by (simp add: field_simps)
qed

lemma in_range_filter_length:
  assumes "0 < b" "0 < sr" "0 < bin_freq b mf k" "bin_freq b mf k < sr / 2"
  shows "3 \<le> \<lceil>cqt_Q b * sr / bin_freq b mf k\<rceil>"
proof -
  have "2 < sr / bin_freq b mf k" using assms by (simp add: field_simps)
  moreover have "1 * (sr / bin_freq b mf k) \<le> cqt_Q b * (sr / bin_freq b mf k)"
    using cqt_Q_ge_1[OF assms(1)] assms by (intro mult_right_mono) simp_all
  ultimately have "2 < cqt_Q b * sr / bin_freq b mf k" by simp
  then show ?thesis by (simp add: less_ceiling_iff)
qed


section \<open>Bins out of range\<close>

lemma initCQT_bin_ar_rows:
  assumes "initCQT_bin_ar ar b n sr mf Q k st = Inr (go, st')"
  shows "length (cqtKernelReal st') = length (cqtKernelReal st)"
    and "length (cqtKernelImag st') = length (cqtKernelImag st)"
    and "j \<noteq> k \<Longrightarrow> cqtKernelReal st' ! j = cqtKernelReal st ! j"
    and "j \<noteq> k \<Longrightarrow> cqtKernelImag st' ! j = cqtKernelImag st ! j"
    and "fle ar (bin_freq_ar ar b mf k) (fconv ar 0)
         \<or> fle ar (fdiv ar sr (fconv ar 2)) (bin_freq_ar ar b mf k) \<Longrightarrow> go \<and> st' = st"
  using assms
  by (auto simp: initCQT_bin_ar_def Let_def split: if_splits prod.splits sum.splits dest!: fft_engine)

lemma initCQT_bins_ar_rows:
  "initCQT_bins_ar ar b n sr mf Q tb k0 st = Inr (ok, st') \<Longrightarrow>
     length (cqtKernelReal st') = length (cqtKernelReal st)
     \<and> length (cqtKernelImag st') = length (cqtKernelImag st)
     \<and> (\<forall>j. j < k0 \<or> fle ar (bin_freq_ar ar b mf j) (fconv ar 0)
              \<or> fle ar (fdiv ar sr (fconv ar 2)) (bin_freq_ar ar b mf j) \<longrightarrow>
            cqtKernelReal st' ! j = cqtKernelReal st ! j
            \<and> cqtKernelImag st' ! j = cqtKernelImag st ! j)"
proof (induction ar b n sr mf Q tb k0 st rule: initCQT_bins_ar.induct)
  case (1 ar b n sr mf Q tb k st)
  let ?out = "\<lambda>j. fle ar (bin_freq_ar ar b mf j) (fconv ar 0)
              \<or> fle ar (fdiv ar sr (fconv ar 2)) (bin_freq_ar ar b mf j)"
  show ?case
  proof (cases "k < tb")
    case False
    with "1.prems" show ?thesis by (simp add: initCQT_bins_ar.simps)
  next
    case True
    show ?thesis
    proof (cases "initCQT_bin_ar ar b n sr mf Q k st")
      case (Inl f)
      with True "1.prems" show ?thesis by (simp add: initCQT_bins_ar.simps)
    next
      case (Inr r)
      obtain go st1 where r: "r = (go, st1)" by (cases r)
      have bin: "initCQT_bin_ar ar b n sr mf Q k st = Inr (go, st1)" using Inr r by simp
      note rows = initCQT_bin_ar_rows[OF bin]
      show ?thesis
      proof (cases go)
        case True
        have "initCQT_bins_ar ar b n sr mf Q tb (Suc k) st1 = Inr (ok, st')"
          using "1.prems" \<open>k < tb\<close> Inr r True by (simp add: initCQT_bins_ar.simps)
        from "1.IH"[OF \<open>k < tb\<close> Inr r[symmetric] True this]
        have ih: "length (cqtKernelReal st') = length (cqtKernelReal st1)"
          "length (cqtKernelImag st') = length (cqtKernelImag st1)"
          "\<And>j. j < Suc k \<or> ?out j \<Longrightarrow>
            cqtKernelReal st' ! j = cqtKernelReal st1 ! j
            \<and> cqtKernelImag st' ! j = cqtKernelImag st1 ! j"
          by blast+
        have "cqtKernelReal st' ! j = cqtKernelReal st ! j \<and> cqtKernelImag st' ! j = cqtKernelImag st ! j"
          if j: "j < k \<or> ?out j" for j
        proof (cases "j = k")
          case True
          with j have "?out k" by auto
          from rows(5)[OF this] have "st1 = st" by simp
          with ih(3)[of j] j show ?thesis by auto
        next
          case False
          with ih(3)[of j] j rows(3,4)[of j] show ?thesis by auto
        qed
        with ih(1,2) rows(1,2) show ?thesis by simp
      next
        case False
        have "st' = st1" using "1.prems" \<open>k < tb\<close> Inr r False by (simp add: initCQT_bins_ar.simps)
        moreover have nk: "\<not> ?out k"
          using rows(5) False by blast
        moreover have "cqtKernelReal st1 ! j = cqtKernelReal st ! j
            \<and> cqtKernelImag st1 ! j = cqtKernelImag st ! j"
          if j: "j < k \<or> ?out j" for j
        proof -
          from j nk have "j \<noteq> k" by blast
          with rows(3,4) show ?thesis by simp
        qed
        ultimately show ?thesis using rows(1,2) by simp
      qed
    qed
  qed
qed

lemma resize_bank_empty: "resize_bank m n [] = replicate m (replicate n 0)"
  by (simp add: resize_bank_def)

text \<open>
  C6. After a successful \<open>initCQT\<close> that started from an empty bank, the kernel of every
  bin \<open>k < totalBins\<close> whose frequency is not positive or is at or above
  \<open>sampleRate / 2\<close> is \<open>n\<close> zeros, in both halves of the bank; and at such a bin the body
  of the loop goes on to the next bin with the engine as it is, whatever the engine.
  The frequency of the bin and the bound are the values the call computes, \<open>freq\<close> and
  \<open>sampleRate / 2\<close> of the loop, compared as the call compares them, in whatever
  arithmetic it runs.
\<close>

theorem skipped_bins_zero:
  assumes "initCQT_ar ar st binsPerOctave octaves n sampleRate minFreq = Inr (True, st')"
    and "cqtKernelReal st = []" and "cqtKernelImag st = []"
    and "k < nat (binsPerOctave * octaves)"
    and "fle ar (bin_freq_ar ar binsPerOctave minFreq k) (fconv ar 0)
         \<or> fle ar (fdiv ar sampleRate (fconv ar 2)) (bin_freq_ar ar binsPerOctave minFreq k)"
  shows "cqtKernelReal st' ! k = replicate (nat n) 0
       \<and> cqtKernelImag st' ! k = replicate (nat n) 0
       \<and> initCQT_bin_ar ar binsPerOctave n sampleRate minFreq Q k s = Inr (True, s)"
proof -
  let ?tb = "nat (binsPerOctave * octaves)"
  let ?st1 = "st\<lparr>cqtKernelReal := resize_bank ?tb (nat n) (cqtKernelReal st),
                 cqtKernelImag := resize_bank ?tb (nat n) (cqtKernelImag st)\<rparr>"
  from assms(1) have "initCQT_bins_ar ar binsPerOctave n sampleRate minFreq (cqt_Q_ar ar binsPerOctave) ?tb 0 ?st1
      = Inr (True, st')"
    by (simp add: initCQT_ar_def Let_def split: if_splits)
  from initCQT_bins_ar_rows[OF this] assms(5)
  have "cqtKernelReal st' ! k = cqtKernelReal ?st1 ! k" "cqtKernelImag st' ! k = cqtKernelImag ?st1 ! k"
    by blast+
  moreover have "initCQT_bin_ar ar binsPerOctave n sampleRate minFreq Q k s = Inr (True, s)"
    using assms(5) by (auto simp: initCQT_bin_ar_def Let_def)
  ultimately show ?thesis using assms(2,3,4) by (simp add: resize_bank_empty)
qed

text \<open>
  \<open>initCQT(1, 2, 4, 100, 40)\<close> on the engine of \<open>initFFT(4)\<close>: the bin at 40 Hz gets a
  filter of length 3 and a kernel that is not zero, the bin at 80 Hz is above the
  Nyquist frequency 50 Hz and keeps its zeros. The tests of the call (40, 80, 50, the
  quotient 2.5) are exact in binary32; the kernel written at the first bin is the one
  of real arithmetic.
\<close>

lemma table4: "fill_bitrev 4 0 0 (replicate 4 0) = [0, 2, 1, 3]"
  by code_simp

lemma initFFT_4: "initFFT engine0 True True True 4 = Inr (True, engine4)"
proof -
  have "- 2 * pi * 1 / 4 = - (pi / 2)" by simp
  then have cs: "cos (- 2 * pi * 1 / 4) = 0" "sin (- 2 * pi * 1 / 4) = - 1" by simp_all
  have u: "[0..<nat 4 div 2] = [0, 1]" by (simp add: upt_rec)
  have p: "isPowerOfTwo 4" by (simp add: isPowerOfTwo_def)
  show ?thesis
    unfolding initFFT_def Let_def u
    using p cs by (simp add: table4 engine4_def twiddle_angle_def)
qed

lemma kernel_samples_40: "kernel_samples 40 100 3 4 = ([0, 1, 0, 0], [0, 0, 0, 0])"
proof -
  have u: "[0..<nat 3] = [0, 1, 2]" by (simp add: upt_rec)
  have r: "replicate 4 (0::real) = [0, 0, 0, 0]" by (simp add: numeral_eq_Suc)
  show ?thesis
    unfolding kernel_samples_def Let_def u r by simp
qed

lemma fft_4:
  assumes "twiddleReal st = Some [1, 0]" "twiddleImag st = Some [0, - 1]"
    and "bitReversalIndices st = Some [0, 2, 1, 3]"
  shows "fft st (Some [0, 1, 0, 0]) (Some [0, 0, 0, 0]) 4
           = Inr (True, st, Some [1, 0, - 1, 0], Some [0, - 1, 0, 1])"
proof -
  have p: "isPowerOfTwo 4" by (simp add: isPowerOfTwo_def)
  have u: "[0..<4] = [0, 1, 2, 3]" "[0..<2] = [0, 1]" "[0..<1] = [0]" by (simp_all add: upt_rec)
  have nf: "fft_fault [0, 1, 0, 0] [0, 0, 0, 0] [0, 2, 1, 3] [1, 0] (Some [0, - 1]) 4 = None"
    by (simp add: fft_fault_def u)
  have br: "bit_reverse_pass [0, 2, 1, 3] 4 ([0, 1, 0, 0], [0, 0, 0, 0]) = ([0, 0, 1, 0], [0, 0, 0, 0])"
    by (simp add: bit_reverse_pass_def u bit_reverse_step_def swap_at_def)
  have s1: "butterfly_blocks [1, 0] [0, - 1] 4 2 0 ([0, 0, 1, 0], [0, 0, 0, 0])
      = ([0, 0, 1, 1], [0, 0, 0, 0])"
    by (simp add: butterfly_blocks.simps[of _ _ _ _ 0] butterfly_blocks.simps[of _ _ _ _ "Suc (Suc 0)"]
          butterfly_blocks.simps[of _ _ _ _ "Suc (Suc (Suc (Suc 0)))"]
          butterfly_block_def butterfly_def u Let_def)
  have s2: "butterfly_blocks [1, 0] [0, - 1] 4 4 0 ([0, 0, 1, 1], [0, 0, 0, 0])
      = ([1, 0, - 1, 0], [0, - 1, 0, 1])"
    by (simp add: butterfly_blocks.simps[of _ _ _ _ 0] 
          butterfly_blocks.simps[of _ _ _ _ 4] butterfly_block_def butterfly_def u Let_def)
  have st: "fft_stages [1, 0] [0, - 1] 4 2 ([0, 0, 1, 0], [0, 0, 0, 0])
      = ([1, 0, - 1, 0], [0, - 1, 0, 1])"
    by (simp add: fft_stages.simps[of _ _ _ 2] fft_stages.simps[of _ _ _ 4] fft_stages.simps[of _ _ _ 8] s1 s2)
  show ?thesis
    unfolding fft_def Let_def using p by (simp add: assms nf br st del: One_nat_def)
qed

lemma bin0_40:
  "initCQT_bin_ar exact 1 4 100 40 (cqt_Q_ar exact 1) 0 engine4_zero = Inr (True, engine4_bank)"
proof -
  have f: "bin_freq 1 40 0 = 40" by (simp add: bin_freq_def)
  have q: "cqt_Q 1 = 1" by (simp add: cqt_Q_def)
  have c: "\<lceil>(1::real) * 100 / 40\<rceil> = 3" by simp
  have t: "fft engine4_zero (Some [0, 1, 0, 0]) (Some [0, 0, 0, 0]) 4
           = Inr (True, engine4_zero, Some [1, 0, - 1, 0], Some [0, - 1, 0, 1])"
    by (rule fft_4) (simp_all add: engine4_zero_def engine4_def)
  have b: "cqtKernelReal engine4_zero = [[0, 0, 0, 0], [0, 0, 0, 0]]"
    "cqtKernelImag engine4_zero = [[0, 0, 0, 0], [0, 0, 0, 0]]"
    by (simp_all add: engine4_zero_def)
  have e: "engine4_zero\<lparr>cqtKernelReal := [[1, 0, - 1, 0], [0, 0, 0, 0]],
             cqtKernelImag := [[0, - 1, 0, 1], [0, 0, 0, 0]]\<rparr> = engine4_bank"
    by (simp add: engine4_zero_def engine4_bank_def)
  show ?thesis
    unfolding initCQT_bin_exact cqt_Q_exact initCQT_bin_def f q c Let_def
    by (simp add: kernel_samples_40 t b e)
qed

lemma bin1_40:
  "initCQT_bin_ar exact 1 4 100 40 Q 1 engine4_bank = Inr (True, engine4_bank)"
  by (simp add: initCQT_bin_ar_def bin_freq_ar_def)

lemma initCQT_40:
  "initCQT_ar exact engine4 1 2 4 100 40 = Inr (True, engine4_bank)"
proof -
  have "engine4\<lparr>cqtKernelReal := resize_bank (nat (1 * 2)) (nat 4) (cqtKernelReal engine4),
           cqtKernelImag := resize_bank (nat (1 * 2)) (nat 4) (cqtKernelImag engine4)\<rparr> = engine4_zero"
    by (simp add: engine4_def engine0_def engine4_zero_def resize_bank_def numeral_eq_Suc)
  moreover have "initCQT_bins_ar exact 1 4 100 40 (cqt_Q_ar exact 1) (nat (1 * 2)) 0 engine4_zero
      = Inr (True, engine4_bank)"
    by (simp add: initCQT_bins_ar.simps[of _ _ _ _ _ _ _ 0] initCQT_bins_ar.simps[of _ _ _ _ _ _ _ "Suc 0"]
          initCQT_bins_ar.simps[of _ _ _ _ _ _ _ "Suc (Suc 0)"] bin0_40 bin1_40[simplified] numeral_2_eq_2)
  moreover have "0 < cqt_Q_den_ar exact 1" by (rule cqt_Q_den_exact) simp
  ultimately show ?thesis unfolding initCQT_ar_def Let_def by simp
qed

theorem skipped_bins_zero_witness:
  "initCQT_ar exact engine4 1 2 4 100 40 = Inr (True, engine4_bank)
   \<and> cqtKernelReal engine4 = [] \<and> cqtKernelImag engine4 = []
   \<and> (1::nat) < nat (1 * 2)
   \<and> fle exact (fdiv exact 100 (fconv exact 2)) (bin_freq_ar exact 1 40 1)
   \<and> cqtKernelReal engine4_bank ! 1 = replicate (nat 4) 0
   \<and> cqtKernelImag engine4_bank ! 1 = replicate (nat 4) 0
   \<and> cqtKernelReal engine4_bank ! 0 = [1, 0, - 1, 0]
   \<and> cqtKernelImag engine4_bank ! 0 = [0, - 1, 0, 1]"
proof -
  have h: "cqtKernelReal engine4 = []" "cqtKernelImag engine4 = []"
    "(1::nat) < nat (1 * 2)"
    "fle exact (bin_freq_ar exact 1 40 1) (fconv exact 0)
     \<or> fle exact (fdiv exact 100 (fconv exact 2)) (bin_freq_ar exact 1 40 1)"
    by (simp_all add: engine4_def engine0_def bin_freq_ar_def)
  have r: "cqtKernelReal engine4_bank ! 0 = [1, 0, - 1, 0]"
    "cqtKernelImag engine4_bank ! 0 = [0, - 1, 0, 1]"
    by (simp_all add: engine4_bank_def)
  from skipped_bins_zero[OF initCQT_40 h, of 4 engine0] initCQT_40 h(1,2,3) r
  show ?thesis by (simp add: bin_freq_ar_def)
qed


section \<open>Powers of two, and the bit-reversal table\<close>

lemma bitrev_less: "bitrev k i < 2 ^ k"
proof (induction k arbitrary: i)
  case 0
  show ?case by simp
next
  case (Suc k)
  have "i mod 2 = 0 \<or> i mod 2 = 1" by auto
  with Suc[of "i div 2"] show ?case by auto
qed

lemma and_pow2_small: "(j::nat) < 2 ^ k \<Longrightarrow> j AND 2 ^ k = 0"
  by (simp add: and_exp_eq_0_iff_not_bit bit_iff_odd)

lemma xor_pow2_small: "(j::nat) < 2 ^ k \<Longrightarrow> j XOR 2 ^ k = j + 2 ^ k"
  by (simp add: disjunctive_add_eq_xor and_pow2_small)

lemma and_pow2_big: "(r::nat) < 2 ^ k \<Longrightarrow> (2 ^ k + r) AND 2 ^ k \<noteq> 0"
  by (simp add: and_exp_eq_0_iff_not_bit bit_iff_odd)

lemma xor_pow2_big: "(r::nat) < 2 ^ k \<Longrightarrow> (2 ^ k + r) XOR 2 ^ k = r"
  by (metis add.commute xor.assoc xor.right_neutral xor_pow2_small xor_self_eq)

lemma pow2_if:
  assumes "0 < n" "n AND (n - 1) = 0"
  shows "\<exists>k. (n::int) = 2 ^ k"
  using assms
proof (induction "nat n" arbitrary: n rule: less_induct)
  case less
  show ?case
  proof (cases "n = 1")
    case True
    then have "n = 2 ^ 0" by simp
    then show ?thesis by blast
  next
    case False
    with less.prems have n2: "2 \<le> n" by simp
    show ?thesis
    proof (cases "even n")
      case True
      then obtain m where m: "n = 2 * m" by (elim evenE)
      have "(2 * m - 1) div 2 = m - 1" by simp
      then have "n AND (n - 1) = 2 * (m AND (m - 1))"
        unfolding m by (subst and_int_rec) simp
      with less.prems have "m AND (m - 1) = 0" by simp
      moreover have "0 < m" "nat m < nat n" using n2 m by simp_all
      ultimately obtain k where "m = 2 ^ k" using less.hyps[of m] by blast
      then have "n = 2 ^ Suc k" using m by simp
      then show ?thesis by blast
    next
      case False
      then obtain m where m: "n = 2 * m + 1" by (elim oddE)
      have "n AND (n - 1) = 2 * (m AND m)"
        unfolding m by (subst and_int_rec) simp
      with less.prems have "m = 0" by simp
      with m n2 show ?thesis by simp
    qed
  qed
qed

lemma pow2_only_if: "isPowerOfTwo (2 ^ k)"
proof -
  have "(2::int) ^ k AND (2 ^ k - 1) = take_bit k (2 ^ k)"
    by (simp add: take_bit_eq_mask mask_eq_exp_minus_1)
  also have "\<dots> = 0" by (simp add: take_bit_eq_mod)
  finally have "(2::int) ^ k AND (2 ^ k - 1) = 0" .
  then show ?thesis by (simp add: isPowerOfTwo_def)
qed

lemma isPowerOfTwo_iff: "isPowerOfTwo n \<longleftrightarrow> (\<exists>k. n = 2 ^ k)"
  using pow2_if pow2_only_if by (auto simp: isPowerOfTwo_def)

text \<open>
  One round of the table loop: from the reversal of \<open>i\<close>, the inner \<open>while\<close> and the
  final \<open>j ^= bit\<close> give the reversal of \<open>i + 1\<close>.
\<close>

lemma reverse_step:
  "Suc i < 2 ^ k \<Longrightarrow>
     (case reverse_carry (bitrev k i) (drop_bit 1 (2 ^ k)) of (j', msk) \<Rightarrow> j' XOR msk)
       = bitrev k (Suc i)"
proof (induction k arbitrary: i)
  case 0
  then show ?case by simp
next
  case (Suc k)
  have db: "drop_bit 1 ((2::nat) ^ Suc k) = 2 ^ k" by (simp add: drop_bit_eq_div)
  let ?r = "bitrev k (i div 2)"
  have r: "?r < 2 ^ k" by (rule bitrev_less)
  show ?case
  proof (cases "even i")
    case True
    then have j: "bitrev (Suc k) i = ?r" by simp
    have "reverse_carry ?r (2 ^ k) = (?r, 2 ^ k)"
      by (subst reverse_carry.simps) (simp add: and_pow2_small[OF r])
    moreover have "bitrev (Suc k) (Suc i) = 2 ^ k + ?r" using True by (auto elim!: evenE)
    ultimately show ?thesis unfolding db j by (simp add: xor_pow2_small[OF r])
  next
    case False
    then have j: "bitrev (Suc k) i = 2 ^ k + ?r" by (simp add: odd_iff_mod_2_eq_one)
    from False Suc.prems have lt: "Suc (i div 2) < 2 ^ k" by (auto elim!: oddE)
    have "reverse_carry (2 ^ k + ?r) (2 ^ k) = reverse_carry ?r (drop_bit 1 (2 ^ k))"
      by (subst reverse_carry.simps) (simp add: and_pow2_big[OF r] xor_pow2_big[OF r])
    moreover have "bitrev (Suc k) (Suc i) = bitrev k (Suc (i div 2))" using False by (auto elim!: oddE)
    ultimately show ?thesis unfolding db j using Suc.IH[OF lt] by simp
  qed
qed


lemma fill_bitrev_spec:
  "n = 2 ^ k \<Longrightarrow> (i < n \<Longrightarrow> j = bitrev k i) \<Longrightarrow> length tab = n \<Longrightarrow>
     length (fill_bitrev n i j tab) = n
     \<and> (\<forall>p<n. fill_bitrev n i j tab ! p = (if p < i then tab ! p else bitrev k p))"
proof (induction n i j tab rule: fill_bitrev.induct)
  case (1 n i j tab)
  show ?case
  proof (cases "i < n")
    case False
    have "fill_bitrev n i j tab = tab" using False by (subst fill_bitrev.simps) simp
    with "1.prems" False show ?thesis by simp
  next
    case True
    obtain j' msk where rc: "reverse_carry j (drop_bit 1 n) = (j', msk)"
      by (cases "reverse_carry j (drop_bit 1 n)")
    have unf: "fill_bitrev n i j tab = fill_bitrev n (Suc i) (j' XOR msk) (tab[i := j])"
      using True rc by (subst fill_bitrev.simps) simp
    have jj: "j = bitrev k i" using "1.prems"(2) True by simp
    have nxt: "j' XOR msk = bitrev k (Suc i)" if "Suc i < n"
      using reverse_step[of i k] that rc unfolding jj "1.prems"(1) by simp
    have ih: "length (fill_bitrev n (Suc i) (j' XOR msk) (tab[i := j])) = n
     \<and> (\<forall>p<n. fill_bitrev n (Suc i) (j' XOR msk) (tab[i := j]) ! p
           = (if p < Suc i then tab[i := j] ! p else bitrev k p))"
      using "1.IH"[OF True refl rc[symmetric] refl "1.prems"(1) nxt] "1.prems"(3) by simp
    show ?thesis
      unfolding unf using ih jj "1.prems"(3) True
      by (auto simp: nth_list_update less_Suc_eq)
  qed
qed

lemma fill_bitrev_table:
  "length (fill_bitrev (2 ^ k) 0 0 (replicate (2 ^ k) 0)) = 2 ^ k"
  "p < 2 ^ k \<Longrightarrow> fill_bitrev (2 ^ k) 0 0 (replicate (2 ^ k) 0) ! p = bitrev k p"
proof -
  have z: "bitrev k 0 = 0" by (induction k) simp_all
  from fill_bitrev_spec[of "2 ^ k" k 0 0 "replicate (2 ^ k) 0"] z
  show "length (fill_bitrev (2 ^ k) 0 0 (replicate (2 ^ k) 0)) = 2 ^ k"
    "p < 2 ^ k \<Longrightarrow> fill_bitrev (2 ^ k) 0 0 (replicate (2 ^ k) 0) ! p = bitrev k p"
    by simp_all
qed

lemma bitrev_right:
  "bitrev (Suc k) i = 2 * bitrev k (i mod 2 ^ k) + (i div 2 ^ k) mod 2"
proof (induction k arbitrary: i)
  case 0
  show ?case by simp
next
  case (Suc k)
  have a: "(i mod 2 ^ Suc k) mod 2 = i mod 2"
    by (simp add: mod_mod_cancel)
  have b: "(i mod 2 ^ Suc k) div 2 = (i div 2) mod 2 ^ k"
    using div_exp_mod_exp_eq[of i 1 k] by simp
  have c: "(i div 2) div 2 ^ k = i div 2 ^ Suc k"
    by (simp add: div_mult2_eq)
  have "bitrev (Suc (Suc k)) i = (i mod 2) * 2 ^ Suc k + bitrev (Suc k) (i div 2)" by simp
  also have "\<dots> = (i mod 2) * 2 ^ Suc k + (2 * bitrev k ((i div 2) mod 2 ^ k) + ((i div 2) div 2 ^ k) mod 2)"
    by (simp only: Suc.IH)
  also have "\<dots> = 2 * bitrev (Suc k) (i mod 2 ^ Suc k) + (i div 2 ^ Suc k) mod 2"
    unfolding bitrev.simps(2)[of k "i mod 2 ^ Suc k"] a b c by simp
  finally show ?case .
qed

lemma bitrev_involution: "i < 2 ^ k \<Longrightarrow> bitrev k (bitrev k i) = i"
proof (induction k arbitrary: i)
  case 0
  then show ?case by simp
next
  case (Suc k)
  let ?r = "bitrev k (i mod 2 ^ k)"
  have d: "i div 2 ^ k < 2" using Suc.prems by (simp add: less_mult_imp_div_less)
  then have "(i div 2 ^ k) mod 2 = i div 2 ^ k" by simp
  then have inner: "bitrev (Suc k) i = 2 * ?r + i div 2 ^ k"
    by (simp only: bitrev_right)
  have "bitrev (Suc k) (2 * ?r + i div 2 ^ k) = (i div 2 ^ k) * 2 ^ k + bitrev k ?r"
    using d by simp
  also have "\<dots> = (i div 2 ^ k) * 2 ^ k + i mod 2 ^ k"
    using Suc.IH[of "i mod 2 ^ k"] by simp
  also have "\<dots> = i" by (rule div_mult_mod_eq)
  finally show ?case unfolding inner .
qed


lemma initFFT_success:
  assumes "isPowerOfTwo n" "n < 2 ^ 30"
  obtains k where "nat n = 2 ^ k"
    and "initFFT st True True True n =
      Inr (True, st\<lparr>twiddleReal := Some (map (\<lambda>i. cos (twiddle_angle (2 ^ k) i)) [0..<2 ^ k div 2]),
                      twiddleImag := Some (map (\<lambda>i. sin (twiddle_angle (2 ^ k) i)) [0..<2 ^ k div 2]),
                      bitReversalIndices := Some (fill_bitrev (2 ^ k) 0 0 (replicate (2 ^ k) 0))\<rparr>)"
proof -
  from assms(1) obtain k where k: "n = 2 ^ k" by (auto simp: isPowerOfTwo_iff)
  then have nk: "nat n = 2 ^ k" by (simp add: nat_power_eq)
  have "\<not> (2::int) ^ 30 \<le> n" using assms(2) by simp
  with assms(1) have "initFFT st True True True n =
      Inr (True, st\<lparr>twiddleReal := Some (map (\<lambda>i. cos (twiddle_angle (2 ^ k) i)) [0..<2 ^ k div 2]),
                      twiddleImag := Some (map (\<lambda>i. sin (twiddle_angle (2 ^ k) i)) [0..<2 ^ k div 2]),
                      bitReversalIndices := Some (fill_bitrev (2 ^ k) 0 0 (replicate (2 ^ k) 0))\<rparr>)"
    by (simp add: initFFT_def Let_def nk)
  with nk that show thesis by blast
qed

lemma table8: "fill_bitrev 8 0 0 (replicate 8 0) = [0, 4, 2, 6, 1, 5, 3, 7]"
  by code_simp

text \<open>
  C4. For every power of two \<open>n\<close> (below \<open>2^30\<close>, so that the table's size fits), \<open>initFFT(n)\<close>
  with its allocations granted succeeds, and the bit-reversal table it builds has \<open>n\<close>
  entries, all below \<open>n\<close>, with \<open>table[table[i]] = i\<close> for every \<open>i < n\<close>: it is a
  self-inverse permutation of \<open>[0, n)\<close>.
\<close>

theorem bit_reversal_table_involution:
  assumes "isPowerOfTwo n" and "n < 2 ^ 30"
  shows "\<exists>st' tab. initFFT st True True True n = Inr (True, st')
           \<and> bitReversalIndices st' = Some tab \<and> length tab = nat n
           \<and> (\<forall>i < nat n. tab ! i < nat n \<and> tab ! (tab ! i) = i)
           \<and> distinct tab \<and> set tab = {..<nat n}"
proof -
  from assms obtain k where nk: "nat n = 2 ^ k"
    and init: "initFFT st True True True n =
      Inr (True, st\<lparr>twiddleReal := Some (map (\<lambda>i. cos (twiddle_angle (2 ^ k) i)) [0..<2 ^ k div 2]),
                      twiddleImag := Some (map (\<lambda>i. sin (twiddle_angle (2 ^ k) i)) [0..<2 ^ k div 2]),
                      bitReversalIndices := Some (fill_bitrev (2 ^ k) 0 0 (replicate (2 ^ k) 0))\<rparr>)"
    by (rule initFFT_success)
  let ?tab = "fill_bitrev (2 ^ k) 0 0 (replicate (2 ^ k) 0)"
  have len: "length ?tab = 2 ^ k" by (rule fill_bitrev_table(1))
  have nth: "?tab ! i = bitrev k i" if "i < 2 ^ k" for i using that by (rule fill_bitrev_table(2))
  have inv: "?tab ! i < 2 ^ k \<and> ?tab ! (?tab ! i) = i" if "i < 2 ^ k" for i
    using that by (simp add: nth bitrev_less bitrev_involution)
  have dist: "distinct ?tab"
    unfolding distinct_conv_nth len by (metis inv)
  have "set ?tab = {..<2 ^ k}"
  proof (intro set_eqI iffI)
    fix x assume "x \<in> set ?tab"
    then obtain i where "i < 2 ^ k" "x = ?tab ! i" unfolding in_set_conv_nth len by blast
    with inv show "x \<in> {..<2 ^ k}" by simp
  next
    fix x :: nat assume "x \<in> {..<2 ^ k}"
    then have x: "x < 2 ^ k" by simp
    with inv[of x] have "?tab ! x < length ?tab" "?tab ! (?tab ! x) = x" by (simp_all add: len)
    then show "x \<in> set ?tab" by (metis nth_mem)
  qed
  with init len inv dist show ?thesis unfolding nk by simp
qed

theorem bit_reversal_table_involution_witness:
  "isPowerOfTwo 8 \<and> (8::int) < 2 ^ 30
   \<and> (\<exists>st'. initFFT engine0 True True True 8 = Inr (True, st')
           \<and> bitReversalIndices st' = Some [0, 4, 2, 6, 1, 5, 3, 7])"
  using bit_reversal_table_involution[of 8 engine0] table8
  by (auto simp: initFFT_def isPowerOfTwo_def Let_def)

section \<open>The loops of fft\<close>

text \<open>
  The first loop, for a table that is an involution of \<open>[0, n)\<close>: the swaps move the
  sample at index \<open>br ! p\<close> to index \<open>p\<close>.
\<close>

lemma bit_reverse_prefix:
  assumes inv: "\<And>i. i < n \<Longrightarrow> br ! i < n \<and> br ! (br ! i) = i"
    and len: "length re = n" "length im = n"
  shows "m \<le> n \<Longrightarrow>
    \<exists>r i. fold (bit_reverse_step br) [0..<m] (re, im) = (r, i) \<and> length r = n \<and> length i = n
      \<and> (\<forall>p<n. r ! p = (if p < m \<or> br ! p < m then re ! (br ! p) else re ! p)
               \<and> i ! p = (if p < m \<or> br ! p < m then im ! (br ! p) else im ! p))"
proof (induction m)
  case 0
  then show ?case using len by simp
next
  case (Suc m)
  then have m: "m < n" by simp
  from Suc obtain r i where f: "fold (bit_reverse_step br) [0..<m] (re, im) = (r, i)"
    and l: "length r = n" "length i = n"
    and v: "\<And>p. p < n \<Longrightarrow> r ! p = (if p < m \<or> br ! p < m then re ! (br ! p) else re ! p)
               \<and> i ! p = (if p < m \<or> br ! p < m then im ! (br ! p) else im ! p)"
    by auto
  let ?j = "br ! m"
  have jn: "?j < n" and jj: "br ! ?j = m" using inv[OF m] by simp_all
  have step: "fold (bit_reverse_step br) [0..<Suc m] (re, im) = bit_reverse_step br m (r, i)"
    using f by simp
  show ?case
  proof (cases "m < ?j")
    case True
    have res: "bit_reverse_step br m (r, i) = (swap_at r m ?j, swap_at i m ?j)"
      using True by (simp add: bit_reverse_step_def Let_def)
    have "swap_at r m ?j ! p = (if p < Suc m \<or> br ! p < Suc m then re ! (br ! p) else re ! p)
        \<and> swap_at i m ?j ! p = (if p < Suc m \<or> br ! p < Suc m then im ! (br ! p) else im ! p)"
      if p: "p < n" for p
    proof -
      consider "p = m" | "p = ?j" | "p \<noteq> m" "p \<noteq> ?j" by blast
      then show ?thesis
      proof cases
        case 1
        with True v[OF jn] jj l m jn show ?thesis by (simp add: swap_at_def)
      next
        case 2
        with True v[OF m] jj l m jn show ?thesis by (simp add: swap_at_def)
      next
        case 3
        have "br ! p \<noteq> m" using inv[OF p] 3 by metis
        with 3 v[OF p] show ?thesis by (simp add: swap_at_def less_Suc_eq)
      qed
    qed
    with l show ?thesis unfolding step res by (simp add: swap_at_def)
  next
    case False
    have res: "bit_reverse_step br m (r, i) = (r, i)"
      using False by (simp add: bit_reverse_step_def Let_def)
    have "r ! p = (if p < Suc m \<or> br ! p < Suc m then re ! (br ! p) else re ! p)
        \<and> i ! p = (if p < Suc m \<or> br ! p < Suc m then im ! (br ! p) else im ! p)"
      if p: "p < n" for p
    proof (cases "p = m \<or> br ! p = m")
      case True
      then have "br ! p \<le> m \<and> (br ! p = m \<longrightarrow> p = m \<or> p < m) \<and> br ! (br ! p) = p"
        using False inv[OF p] jj by (metis linorder_not_less nat_less_le)
      then show ?thesis using v[OF p] True by (auto simp: less_Suc_eq)
    next
      case False
      with v[OF p] show ?thesis by (simp add: less_Suc_eq)
    qed
    with l show ?thesis unfolding step res by simp
  qed
qed

lemma bit_reverse_pass_spec:
  assumes inv: "\<And>i. i < n \<Longrightarrow> br ! i < n \<and> br ! (br ! i) = i"
    and len: "length re = n" "length im = n"
  shows "bit_reverse_pass br n (re, im)
           = (map (\<lambda>p. re ! (br ! p)) [0..<n], map (\<lambda>p. im ! (br ! p)) [0..<n])"
proof -
  from bit_reverse_prefix[OF inv len, of n] obtain r i
    where f: "bit_reverse_pass br n (re, im) = (r, i)" and l: "length r = n" "length i = n"
      and v: "\<And>p. p < n \<Longrightarrow> r ! p = re ! (br ! p) \<and> i ! p = im ! (br ! p)"
    unfolding bit_reverse_pass_def by auto
  have "r = map (\<lambda>p. re ! (br ! p)) [0..<n]" "i = map (\<lambda>p. im ! (br ! p)) [0..<n]"
    using l v by (simp_all add: list_eq_iff_nth_eq)
  with f show ?thesis by simp
qed


text \<open>One butterfly, the butterflies of one block, and the blocks of one stage.\<close>

lemma butterfly_cz:
  assumes "0 < half" "i + j + half < length re" "length im = length re"
  obtains re' im' where "butterfly twr twi step half i j (re, im) = (re', im')"
    and "length re' = length re" and "length im' = length re"
    and "\<And>p. cz re' im' p =
          (if p = i + j then cz re im (i + j) + cz twr twi (j * step) * cz re im (i + j + half)
           else if p = i + j + half
             then cz re im (i + j) - cz twr twi (j * step) * cz re im (i + j + half)
           else cz re im p)"
proof -
  let ?res = "butterfly twr twi step half i j (re, im)"
  have "length (fst ?res) = length re" "length (snd ?res) = length re"
    using assms by (simp_all add: butterfly_def Let_def)
  moreover have "cz (fst ?res) (snd ?res) p =
          (if p = i + j then cz re im (i + j) + cz twr twi (j * step) * cz re im (i + j + half)
           else if p = i + j + half
             then cz re im (i + j) - cz twr twi (j * step) * cz re im (i + j + half)
           else cz re im p)" for p
    using assms by (simp add: butterfly_def Let_def cz_def complex_eq_iff nth_list_update)
  ultimately show thesis using that[of "fst ?res" "snd ?res"] by simp
qed

lemma butterfly_block_prefix:
  assumes h: "0 < half" and len: "i + 2 * half \<le> length re" "length im = length re"
  shows "m \<le> half \<Longrightarrow>
    \<exists>re' im'. fold (butterfly twr twi step half i) [0..<m] (re, im) = (re', im')
      \<and> length re' = length re \<and> length im' = length re
      \<and> (\<forall>p. cz re' im' p =
            (if i \<le> p \<and> p < i + m
               then cz re im p + cz twr twi ((p - i) * step) * cz re im (p + half)
             else if i + half \<le> p \<and> p < i + half + m
               then cz re im (p - half) - cz twr twi ((p - half - i) * step) * cz re im p
             else cz re im p))"
proof (induction m)
  case 0
  then show ?case using len by auto
next
  case (Suc m)
  then obtain r1 i1 where f: "fold (butterfly twr twi step half i) [0..<m] (re, im) = (r1, i1)"
    and l: "length r1 = length re" "length i1 = length re"
    and v: "\<And>p. cz r1 i1 p =
            (if i \<le> p \<and> p < i + m
               then cz re im p + cz twr twi ((p - i) * step) * cz re im (p + half)
             else if i + half \<le> p \<and> p < i + half + m
               then cz re im (p - half) - cz twr twi ((p - half - i) * step) * cz re im p
             else cz re im p)"
    by auto
  from Suc.prems len l have b: "i + m + half < length r1" "length i1 = length r1" by simp_all
  from butterfly_cz[OF h b, of twr twi step] obtain r2 i2
    where s: "butterfly twr twi step half i m (r1, i1) = (r2, i2)"
      and l2: "length r2 = length r1" "length i2 = length r1"
      and v2: "\<And>p. cz r2 i2 p =
          (if p = i + m then cz r1 i1 (i + m) + cz twr twi (m * step) * cz r1 i1 (i + m + half)
           else if p = i + m + half
             then cz r1 i1 (i + m) - cz twr twi (m * step) * cz r1 i1 (i + m + half)
           else cz r1 i1 p)"
    by blast
  have e: "cz r1 i1 (i + m) = cz re im (i + m)" "cz r1 i1 (i + m + half) = cz re im (i + m + half)"
    using Suc.prems h by (simp_all add: v)
  have "fold (butterfly twr twi step half i) [0..<Suc m] (re, im) = (r2, i2)"
    using f s by simp
  moreover have "cz r2 i2 p =
            (if i \<le> p \<and> p < i + Suc m
               then cz re im p + cz twr twi ((p - i) * step) * cz re im (p + half)
             else if i + half \<le> p \<and> p < i + half + Suc m
               then cz re im (p - half) - cz twr twi ((p - half - i) * step) * cz re im p
             else cz re im p)" for p
    unfolding v2 e using Suc.prems h by (auto simp: v)
  ultimately show ?case using l l2 by auto
qed


lemma mod_in_block:
  fixes p b L :: nat
  assumes "b * L \<le> p" "p < b * L + L"
  shows "p mod L = p - b * L"
proof -
  have "(p - b * L + b * L) mod L = (p - b * L) mod L" by (rule mod_mult_self1)
  moreover have "p - b * L + b * L = p" using assms by simp
  ultimately have "p mod L = (p - b * L) mod L" by simp
  then show ?thesis using assms by simp
qed

lemma block_floor:
  fixes p c L :: nat
  assumes "c * L \<le> p" "0 < L"
  shows "c * L \<le> p - p mod L"
proof -
  have "c \<le> p div L" using assms by (simp add: less_eq_div_iff_mult_less_eq)
  then have "c * L \<le> (p div L) * L" by simp
  then show ?thesis by (simp add: minus_mod_eq_div_mult)
qed

lemma butterfly_blocks_spec:
  assumes h: "0 < half"
  shows "i = b * (2 * half) \<Longrightarrow> n = q * (2 * half) \<Longrightarrow> b \<le> q \<Longrightarrow>
     length re = n \<Longrightarrow> length im = n \<Longrightarrow>
     \<exists>re' im'. butterfly_blocks twr twi n (2 * half) i (re, im) = (re', im')
       \<and> length re' = n \<and> length im' = n
       \<and> (\<forall>p<n. cz re' im' p =
             (if p < i then cz re im p else stage_cz twr twi (n div (2 * half)) half re im p))"
proof (induction "q - b" arbitrary: b i re im)
  case 0
  then have "i = n" by simp
  then have "butterfly_blocks twr twi n (2 * half) i (re, im) = (re, im)"
    by (subst butterfly_blocks.simps) simp
  with 0 \<open>i = n\<close> show ?case by simp
next
  case (Suc d)
  let ?L = "2 * half"
  from Suc have bq: "b < q" by simp
  have L: "0 < ?L" using h by simp
  have iL: "i + ?L \<le> n" 
  proof -
    have "(b + 1) * ?L \<le> q * ?L" using bq by (intro mult_le_mono1) simp
    then show ?thesis using Suc.prems(1,2) by (simp add: algebra_simps)
  qed
  then have "i < n" using L by linarith
  have unf: "butterfly_blocks twr twi n ?L i (re, im) =
      butterfly_blocks twr twi n ?L (i + ?L)
        (fold (butterfly twr twi (n div ?L) half i) [0..<half] (re, im))"
    using \<open>i < n\<close> L by (subst butterfly_blocks.simps) (simp add: butterfly_block_def)
  from butterfly_block_prefix[OF h, of i re im half twr twi "n div ?L"] iL Suc.prems(4,5)
  obtain r1 i1 where f: "fold (butterfly twr twi (n div ?L) half i) [0..<half] (re, im) = (r1, i1)"
    and l1: "length r1 = n" "length i1 = n"
    and v1: "\<And>p. cz r1 i1 p =
            (if i \<le> p \<and> p < i + half
               then cz re im p + cz twr twi ((p - i) * (n div ?L)) * cz re im (p + half)
             else if i + half \<le> p \<and> p < i + half + half
               then cz re im (p - half) - cz twr twi ((p - half - i) * (n div ?L)) * cz re im p
             else cz re im p)"
    by auto
  have "d = q - Suc b" using Suc.hyps(2) by simp
  from Suc.hyps(1)[OF this, of "i + ?L" r1 i1] Suc.prems(1,2) bq l1
  obtain re' im' where r: "butterfly_blocks twr twi n ?L (i + ?L) (r1, i1) = (re', im')"
    and l': "length re' = n" "length im' = n"
    and v': "\<And>p. p < n \<Longrightarrow> cz re' im' p =
             (if p < i + ?L then cz r1 i1 p else stage_cz twr twi (n div ?L) half r1 i1 p)"
    by auto
  have "cz re' im' p = (if p < i then cz re im p else stage_cz twr twi (n div ?L) half re im p)"
    if p: "p < n" for p
  proof -
    consider "p < i" | "i \<le> p" "p < i + ?L" | "i + ?L \<le> p" by linarith
    then show ?thesis
    proof cases
      case 1
      then show ?thesis using v'[OF p] by (simp add: v1)
    next
      case 2
      have md: "p mod ?L = p - i"
        using mod_in_block[of b ?L p] 2 Suc.prems(1) by simp
      show ?thesis
      proof (cases "p < i + half")
        case True
        with 2 md have "p mod ?L < half" by linarith
        then show ?thesis using v'[OF p] 2 True md by (simp add: v1 stage_cz_def)
      next
        case False
        with 2 md have "\<not> p mod ?L < half" by linarith
        moreover have "p - half - i = p mod ?L - half" using md by simp
        ultimately show ?thesis using v'[OF p] 2 False by (simp add: v1 stage_cz_def)
      qed
    next
      case 3
      have fl: "i + ?L \<le> p - p mod ?L"
        using block_floor[of "Suc b" ?L p] 3 L Suc.prems(1) by simp
      have a: "cz r1 i1 p = cz re im p" "cz r1 i1 (p + half) = cz re im (p + half)"
        using 3 by (simp_all add: v1)
      have b: "cz r1 i1 (p - half) = cz re im (p - half)" if "\<not> p mod ?L < half"
      proof -
        have "i + ?L \<le> p - half" using fl that by linarith
        then show ?thesis by (simp add: v1)
      qed
      show ?thesis using v'[OF p] 3 a b by (simp add: stage_cz_def)
    qed
  qed
  with unf f r l' show ?case by simp
qed


text \<open>One stage of the outer loop, and the whole of \<open>fft\<close> on an engine \<open>initFFT\<close> built.\<close>

lemma upper_partner_in_range:
  fixes p q h :: nat
  assumes "p < q * (2 * h)" "p mod (2 * h) < h"
  shows "p + h < q * (2 * h)"
proof -
  have "0 < 2 * h" using assms(2) by simp
  then have "p div (2 * h) < q" using assms(1) by (simp add: div_less_iff_less_mult)
  then have "(p div (2 * h) + 1) * (2 * h) \<le> q * (2 * h)" by (intro mult_le_mono1) simp
  then have a: "p div (2 * h) * (2 * h) + 2 * h \<le> q * (2 * h)" by (simp add: algebra_simps)
  have b: "p = p div (2 * h) * (2 * h) + p mod (2 * h)" by (rule div_mult_mod_eq[symmetric])
  from b assms(2) have "p + h < p div (2 * h) * (2 * h) + 2 * h" by linarith
  with a show ?thesis by linarith
qed

lemma fft_stage_run:
  assumes "0 < half" "n = q * (2 * half)" "0 < q" "length re = n" "length im = n"
  obtains re' im' where
    "fft_stages twr twi n (2 * half) (re, im) = fft_stages twr twi n (2 * (2 * half)) (re', im')"
    "length re' = n" "length im' = n"
    "\<And>p. p < n \<Longrightarrow> cz re' im' p = stage_cz twr twi (n div (2 * half)) half re im p"
proof -
  from butterfly_blocks_spec[OF assms(1), of 0 0 n q re im twr twi] assms
  obtain re' im' where b: "butterfly_blocks twr twi n (2 * half) 0 (re, im) = (re', im')"
    and l: "length re' = n" "length im' = n"
    and v: "\<And>p. p < n \<Longrightarrow> cz re' im' p = stage_cz twr twi (n div (2 * half)) half re im p"
    by auto
  have "2 * half \<le> n" using assms(2,3) by (cases q) simp_all
  then have "fft_stages twr twi n (2 * half) (re, im) = fft_stages twr twi n (2 * (2 * half)) (re', im')"
    using assms(1) b by (subst fft_stages.simps) (simp add: push_bit_eq_mult)
  with l v that show thesis by blast
qed

lemma initialised_engine:
  assumes "initFFT st0 okRe okIm okBr n = Inr (True, st)"
  obtains k where "nat n = 2 ^ k" and "isPowerOfTwo n" and "n < 2 ^ 30"
    and "twiddleReal st = Some (map (\<lambda>i. cos (twiddle_angle (2 ^ k) i)) [0..<2 ^ k div 2])"
    and "twiddleImag st = Some (map (\<lambda>i. sin (twiddle_angle (2 ^ k) i)) [0..<2 ^ k div 2])"
    and "bitReversalIndices st = Some (fill_bitrev (2 ^ k) 0 0 (replicate (2 ^ k) 0))"
proof -
  from assms have p: "isPowerOfTwo n" and b: "n < 2 ^ 30"
    and st: "st = st0\<lparr>twiddleReal := Some (map (\<lambda>i. cos (twiddle_angle (nat n) i)) [0..<nat n div 2]),
                      twiddleImag := Some (map (\<lambda>i. sin (twiddle_angle (nat n) i)) [0..<nat n div 2]),
                      bitReversalIndices := Some (fill_bitrev (nat n) 0 0 (replicate (nat n) 0))\<rparr>"
    by (auto simp: initFFT_def Let_def split: if_splits)
  from p obtain k where "n = 2 ^ k" by (auto simp: isPowerOfTwo_iff)
  then have nk: "nat n = 2 ^ k" by (simp add: nat_power_eq)
  show thesis using that[OF nk p b] st unfolding nk by simp
qed

lemma fft_on_initialised:
  assumes init: "initFFT st0 okRe okIm okBr n = Inr (True, st)"
    and len: "length re = nat n" "length im = nat n"
  obtains k twr twi where "nat n = 2 ^ k" and "length twr = 2 ^ k div 2" and "length twi = 2 ^ k div 2"
    and "\<And>i. i < 2 ^ k div 2 \<Longrightarrow> cz twr twi i = cis (twiddle_angle (2 ^ k) i)"
    and "fft st (Some re) (Some im) n =
      (case fft_stages twr twi (2 ^ k) 2
              (map (\<lambda>p. re ! bitrev k p) [0..<2 ^ k], map (\<lambda>p. im ! bitrev k p) [0..<2 ^ k]) of
         (re', im') \<Rightarrow> Inr (True, st, Some re', Some im'))"
proof -
  from init obtain k where nk: "nat n = 2 ^ k" and p: "isPowerOfTwo n" and b: "n < 2 ^ 30"
    and tr: "twiddleReal st = Some (map (\<lambda>i. cos (twiddle_angle (2 ^ k) i)) [0..<2 ^ k div 2])"
    and ti: "twiddleImag st = Some (map (\<lambda>i. sin (twiddle_angle (2 ^ k) i)) [0..<2 ^ k div 2])"
    and br: "bitReversalIndices st = Some (fill_bitrev (2 ^ k) 0 0 (replicate (2 ^ k) 0))"
    by (rule initialised_engine)
  let ?twr = "map (\<lambda>i. cos (twiddle_angle (2 ^ k) i)) [0..<2 ^ k div 2]"
  let ?twi = "map (\<lambda>i. sin (twiddle_angle (2 ^ k) i)) [0..<2 ^ k div 2]"
  let ?br = "fill_bitrev (2 ^ k) 0 0 (replicate (2 ^ k) 0)"
  have brl: "length ?br = 2 ^ k" by (rule fill_bitrev_table(1))
  have brn: "?br ! i = bitrev k i" if "i < 2 ^ k" for i using that by (rule fill_bitrev_table(2))
  have inv: "?br ! i < 2 ^ k \<and> ?br ! (?br ! i) = i" if "i < 2 ^ k" for i
    using that by (simp add: brn bitrev_less bitrev_involution)
  have "int (nat n) < 2 ^ 30" using b by simp
  then have "nat n < 2 ^ 30" by (simp only: of_nat_less_numeral_power_cancel_iff)
  then have "(2::nat) ^ k < 2 ^ 30" by (simp only: nk)
  then have nf: "fft_fault re im ?br ?twr (Some ?twi) (2 ^ k) = None"
    using len nk brl inv by (auto simp: fft_fault_def list_all_iff)
  have "bit_reverse_pass ?br (2 ^ k) (re, im)
      = (map (\<lambda>p. re ! (?br ! p)) [0..<2 ^ k], map (\<lambda>p. im ! (?br ! p)) [0..<2 ^ k])"
    by (rule bit_reverse_pass_spec) (use inv len nk in simp_all)
  moreover have "map (\<lambda>p. re ! (?br ! p)) [0..<2 ^ k] = map (\<lambda>p. re ! bitrev k p) [0..<2 ^ k]"
    "map (\<lambda>p. im ! (?br ! p)) [0..<2 ^ k] = map (\<lambda>p. im ! bitrev k p) [0..<2 ^ k]"
    by (simp_all add: brn)
  ultimately have perm: "bit_reverse_pass ?br (2 ^ k) (re, im)
      = (map (\<lambda>p. re ! bitrev k p) [0..<2 ^ k], map (\<lambda>p. im ! bitrev k p) [0..<2 ^ k])"
    by simp
  have "fft st (Some re) (Some im) n =
      (case fft_stages ?twr ?twi (2 ^ k) 2
              (map (\<lambda>p. re ! bitrev k p) [0..<2 ^ k], map (\<lambda>p. im ! bitrev k p) [0..<2 ^ k]) of
         (re', im') \<Rightarrow> Inr (True, st, Some re', Some im'))"
    using p by (simp add: fft_def tr ti br nk nf perm Let_def)
  moreover have "cz ?twr ?twi i = cis (twiddle_angle (2 ^ k) i)" if "i < 2 ^ k div 2" for i
    using that by (simp add: cz_def cis.code)
  ultimately show thesis using that[OF nk, of ?twr ?twi] by simp
qed

section \<open>The transform of the unit impulse\<close>

lemma impulse_stage:
  assumes "0 < h" "n = q * (2 * h)" "p < n"
    and v: "\<And>x. x < n \<Longrightarrow> cz re im x = (if x < h then 1 else 0)"
  shows "stage_cz twr twi step h re im p = (if p < 2 * h then 1 else 0)"
proof (cases "p mod (2 * h) < h")
  case True
  have "p + h < n" using upper_partner_in_range[of p q h] assms(2,3) True by simp
  then have "cz re im (p + h) = 0" using v[of "p + h"] by simp
  moreover have "p < h \<longleftrightarrow> p < 2 * h"
    using True by (metis mod_less linorder_not_less trans_less_add1 mult_2)
  ultimately show ?thesis using True v[OF assms(3)] by (simp add: stage_cz_def)
next
  case False
  have "p mod (2 * h) \<le> p" by simp
  with False have ph: "h \<le> p" by linarith
  then have "cz re im p = 0" using v[OF assms(3)] by simp
  moreover have "cz re im (p - h) = (if p < 2 * h then 1 else 0)"
    using v[of "p - h"] ph assms(3) by auto
  ultimately show ?thesis using False by (simp add: stage_cz_def)
qed

lemma impulse_stages:
  "n = 2 ^ k \<Longrightarrow> s \<le> k \<Longrightarrow> length re = n \<Longrightarrow> length im = n \<Longrightarrow>
   (\<And>p. p < n \<Longrightarrow> cz re im p = (if p < 2 ^ s then 1 else 0)) \<Longrightarrow>
     \<exists>re' im'. fft_stages twr twi n (2 * 2 ^ s) (re, im) = (re', im')
        \<and> length re' = n \<and> length im' = n \<and> (\<forall>p<n. cz re' im' p = 1)"
proof (induction "k - s" arbitrary: s re im)
  case 0
  then have "s = k" by simp
  then have "\<not> 2 * 2 ^ s \<le> n" using 0 by simp
  then have "fft_stages twr twi n (2 * 2 ^ s) (re, im) = (re, im)"
    by (subst fft_stages.simps) simp
  with 0 \<open>s = k\<close> show ?case by simp
next
  case (Suc d)
  then have sk: "s < k" by simp
  have n: "n = 2 ^ (k - Suc s) * (2 * 2 ^ s)"
    using sk Suc.prems(1) by (simp add: power_add[symmetric] flip: power_Suc)
  from fft_stage_run[of "2 ^ s" n "2 ^ (k - Suc s)" re im twr twi] n Suc.prems(3,4)
  obtain r1 i1 where
    run: "fft_stages twr twi n (2 * 2 ^ s) (re, im) = fft_stages twr twi n (2 * (2 * 2 ^ s)) (r1, i1)"
    and l: "length r1 = n" "length i1 = n"
    and v: "\<And>p. p < n \<Longrightarrow> cz r1 i1 p = stage_cz twr twi (n div (2 * 2 ^ s)) (2 ^ s) re im p"
    by auto
  have v1: "cz r1 i1 p = (if p < 2 ^ Suc s then 1 else 0)" if "p < n" for p
    using impulse_stage[of "2 ^ s" n "2 ^ (k - Suc s)" p re im] n that Suc.prems(5) v[OF that]
    by simp
  have "d = k - Suc s" using Suc.hyps(2) by simp
  from Suc.hyps(1)[OF this Suc.prems(1) _ l v1] sk run show ?case by simp
qed


lemma bitrev_zero: "bitrev k 0 = 0"
  by (induction k) simp_all

lemma bitrev_eq_zero: "p < 2 ^ k \<Longrightarrow> bitrev k p = 0 \<longleftrightarrow> p = 0"
  by (metis bitrev_involution bitrev_zero)

lemma initFFT_8: "initFFT engine0 True True True 8 = Inr (True, engine8)"
  by (simp add: initFFT_def isPowerOfTwo_def Let_def table8 engine8_def)

text \<open>
  C3. On an engine that \<open>initFFT(n)\<close> has just built (so \<open>n\<close> is a power of two), \<open>fft\<close> of
  the unit impulse, \<open>real[0] = 1\<close> and every other entry of both buffers 0, succeeds and
  leaves \<open>real[i] = 1\<close> and \<open>imag[i] = 0\<close> for every \<open>i < n\<close>; for \<open>n = 8\<close> this is the
  scenario of the specification. The values of the twiddle factors play no part.
\<close>

theorem impulse_flat_spectrum:
  assumes "initFFT st0 okRe okIm okBr n = Inr (True, st)"
  shows "fft st (Some ((replicate (nat n) 0)[0 := 1])) (Some (replicate (nat n) 0)) n
           = Inr (True, st, Some (replicate (nat n) 1), Some (replicate (nat n) 0))"
proof -
  let ?re = "(replicate (nat n) 0)[0 := 1::real]" and ?im = "replicate (nat n) (0::real)"
  have lr: "length ?re = nat n" "length ?im = nat n" by simp_all
  show ?thesis
  proof (rule fft_on_initialised[OF assms lr])
    fix k twr twi
    assume nk: "nat n = 2 ^ k"
      and run: "fft st (Some ?re) (Some ?im) n =
        (case fft_stages twr twi (2 ^ k) 2
                (map (\<lambda>p. ?re ! bitrev k p) [0..<2 ^ k], map (\<lambda>p. ?im ! bitrev k p) [0..<2 ^ k]) of
           (re', im') \<Rightarrow> Inr (True, st, Some re', Some im'))"
    let ?r0 = "map (\<lambda>p. ?re ! bitrev k p) [0..<2 ^ k]"
    let ?i0 = "map (\<lambda>p. ?im ! bitrev k p) [0..<2 ^ k]"
    have v0: "cz ?r0 ?i0 p = (if p < 2 ^ 0 then 1 else 0)" if "p < 2 ^ k" for p
      using that bitrev_less[of k p] bitrev_eq_zero[OF that]
      by (auto simp: cz_def nk nth_list_update complex_eq_iff)
    from impulse_stages[of "2 ^ k" k 0 ?r0 ?i0 twr twi] v0
    obtain re' im' where st: "fft_stages twr twi (2 ^ k) 2 (?r0, ?i0) = (re', im')"
      and l: "length re' = 2 ^ k" "length im' = 2 ^ k"
      and v: "\<And>p. p < 2 ^ k \<Longrightarrow> cz re' im' p = 1"
      by auto
    have "re' ! p = 1 \<and> im' ! p = 0" if "p < 2 ^ k" for p
      using v[OF that] by (simp add: cz_def complex_eq_iff)
    then have "re' = replicate (2 ^ k) 1" "im' = replicate (2 ^ k) 0"
      using l by (simp_all add: list_eq_iff_nth_eq)
    then have "re' = replicate (nat n) 1" "im' = replicate (nat n) 0"
      by (simp_all only: nk)
    moreover from run st have "fft st (Some ?re) (Some ?im) n = Inr (True, st, Some re', Some im')"
      by simp
    ultimately show ?thesis by simp
  qed
qed


theorem impulse_flat_spectrum_witness:
  "initFFT engine0 True True True 8 = Inr (True, engine8)
   \<and> fft engine8 (Some [1, 0, 0, 0, 0, 0, 0, 0]) (Some [0, 0, 0, 0, 0, 0, 0, 0]) 8
       = Inr (True, engine8, Some [1, 1, 1, 1, 1, 1, 1, 1], Some [0, 0, 0, 0, 0, 0, 0, 0])"
  using impulse_flat_spectrum[OF initFFT_8] initFFT_8
  by (simp add: numeral_eq_Suc)


section \<open>fft computes the discrete Fourier transform\<close>

text \<open>Roots of unity, and the two halves of a transform of doubled length.\<close>

lemma omega_zero [simp]: "omega n 0 = 1"
  by (simp add: omega_def)

lemma omega_add: "omega n (a + b) = omega n a * omega n b"
proof -
  have "- 2 * pi * real (a + b) / real n = - 2 * pi * real a / real n + - 2 * pi * real b / real n"
    by (simp only: of_nat_add distrib_left add_divide_distrib)
  then show ?thesis by (simp only: omega_def cis_mult)
qed

lemma omega_multiple: "omega n (c * n) = 1"
proof (cases "n = 0")
  case True
  then show ?thesis by (simp add: omega_def)
next
  case False
  then have "- 2 * pi * real (c * n) / real n = 2 * pi * (- real c)" by simp
  moreover have "- real c \<in> \<int>" by simp
  ultimately show ?thesis unfolding omega_def by (simp only: cis_multiple_2pi)
qed

lemma omega_scale: "0 < c \<Longrightarrow> omega (c * n) (c * e) = omega n e"
proof -
  assume "0 < c"
  then have "real (c * e) / real (c * n) = real e / real n" by simp
  then have "- 2 * pi * real (c * e) / real (c * n) = - 2 * pi * real e / real n"
    by (simp only: times_divide_eq_right[symmetric])
  then show ?thesis by (simp only: omega_def)
qed

lemma bitrev_even: "bitrev (Suc j) (2 * b) = bitrev j b"
  by simp

lemma bitrev_odd: "bitrev (Suc j) (2 * b + 1) = 2 ^ j + bitrev j b"
  by simp

lemma omega_half: "0 < h \<Longrightarrow> omega (2 * h) h = - 1"
proof -
  assume "0 < h"
  then have "- 2 * pi * real h / real (2 * h) = - pi" by simp
  then have "omega (2 * h) h = cis (- pi)" by (simp only: omega_def)
  also have "\<dots> = - 1" by (simp add: complex_eq_iff)
  finally show ?thesis .
qed

lemma sum_even_odd:
  fixes f :: "nat \<Rightarrow> complex"
  shows "(\<Sum>m<2 * h. f m) = (\<Sum>m<h. f (2 * m)) + (\<Sum>m<h. f (2 * m + 1))"
  by (induction h) (simp_all add: algebra_simps)

lemma stage_dft_low:
  assumes "s < k"
  shows "stage_dft k x (Suc s) b r
           = stage_dft k x s (2 * b) r + omega (2 ^ Suc s) r * stage_dft k x s (2 * b + 1) r"
proof -
  obtain j where j: "k - s = Suc j" "k - Suc s = j" using assms by (cases "k - s") auto
  have ev: "x (bitrev j b + (2 * m) * 2 ^ j) * omega (2 ^ Suc s) ((2 * m) * r)
      = x (bitrev (Suc j) (2 * b) + m * 2 ^ Suc j) * omega (2 ^ s) (m * r)" for m
    using omega_scale[of 2 "2 ^ s" "m * r"] by (simp add: algebra_simps)
  have od: "x (bitrev j b + (2 * m + 1) * 2 ^ j) * omega (2 ^ Suc s) ((2 * m + 1) * r)
      = omega (2 ^ Suc s) r * (x (bitrev (Suc j) (2 * b + 1) + m * 2 ^ Suc j) * omega (2 ^ s) (m * r))" for m
  proof -
    have "omega (2 ^ Suc s) ((2 * m + 1) * r) = omega (2 * 2 ^ s) (2 * (m * r)) * omega (2 ^ Suc s) r"
      by (simp add: omega_add[symmetric] algebra_simps)
    also have "\<dots> = omega (2 ^ s) (m * r) * omega (2 ^ Suc s) r"
      using omega_scale[of 2 "2 ^ s" "m * r"] by simp
    finally have w: "omega (2 ^ Suc s) ((2 * m + 1) * r) = omega (2 ^ s) (m * r) * omega (2 ^ Suc s) r" .
    have idx: "bitrev j b + (2 * m + 1) * 2 ^ j = bitrev (Suc j) (2 * b + 1) + m * 2 ^ Suc j"
      unfolding bitrev_odd by (simp add: algebra_simps)
    show ?thesis unfolding idx w by (simp only: mult_ac)
  qed
  have "stage_dft k x (Suc s) b r
      = (\<Sum>m<2 * 2 ^ s. x (bitrev j b + m * 2 ^ j) * omega (2 ^ Suc s) (m * r))"
    by (simp add: stage_dft_def j)
  also have "\<dots> = (\<Sum>m<2 ^ s. x (bitrev j b + (2 * m) * 2 ^ j) * omega (2 ^ Suc s) ((2 * m) * r))
      + (\<Sum>m<2 ^ s. x (bitrev j b + (2 * m + 1) * 2 ^ j) * omega (2 ^ Suc s) ((2 * m + 1) * r))"
    by (rule sum_even_odd)
  also have "\<dots> = stage_dft k x s (2 * b) r + omega (2 ^ Suc s) r * stage_dft k x s (2 * b + 1) r"
    unfolding ev od by (simp add: stage_dft_def j sum_distrib_left)
  finally show ?thesis .
qed

lemma stage_dft_high:
  assumes "s < k"
  shows "stage_dft k x (Suc s) b (r + 2 ^ s)
           = stage_dft k x s (2 * b) r - omega (2 ^ Suc s) r * stage_dft k x s (2 * b + 1) r"
proof -
  obtain j where j: "k - s = Suc j" "k - Suc s = j" using assms by (cases "k - s") auto
  have per: "omega (2 ^ s) (m * (r + 2 ^ s)) = omega (2 ^ s) (m * r)" for m
    by (simp add: ring_distribs omega_add omega_multiple)
  have ev: "x (bitrev j b + (2 * m) * 2 ^ j) * omega (2 ^ Suc s) ((2 * m) * (r + 2 ^ s))
      = x (bitrev (Suc j) (2 * b) + m * 2 ^ Suc j) * omega (2 ^ s) (m * r)" for m
  proof -
    have "omega (2 ^ Suc s) ((2 * m) * (r + 2 ^ s)) = omega (2 * 2 ^ s) (2 * (m * (r + 2 ^ s)))"
      by (simp add: algebra_simps)
    also have "\<dots> = omega (2 ^ s) (m * r)"
      using omega_scale[of 2 "2 ^ s" "m * (r + 2 ^ s)"] by (simp only: per)
    finally show ?thesis by (simp add: algebra_simps)
  qed
  have od: "x (bitrev j b + (2 * m + 1) * 2 ^ j) * omega (2 ^ Suc s) ((2 * m + 1) * (r + 2 ^ s))
      = - (omega (2 ^ Suc s) r * (x (bitrev (Suc j) (2 * b + 1) + m * 2 ^ Suc j) * omega (2 ^ s) (m * r)))" for m
  proof -
    have "(2 * m + 1) * (r + 2 ^ s) = 2 * (m * (r + 2 ^ s)) + (r + 2 ^ s)" by (simp add: algebra_simps)
    then have "omega (2 ^ Suc s) ((2 * m + 1) * (r + 2 ^ s))
        = omega (2 * 2 ^ s) (2 * (m * (r + 2 ^ s))) * (omega (2 * 2 ^ s) r * omega (2 * 2 ^ s) (2 ^ s))"
      by (simp only: omega_add power_Suc)
    also have "\<dots> = omega (2 ^ s) (m * r) * (omega (2 ^ Suc s) r * (- 1))"
      using omega_scale[of 2 "2 ^ s" "m * (r + 2 ^ s)"] omega_half[of "2 ^ s"] by (simp add: per)
    finally have w: "omega (2 ^ Suc s) ((2 * m + 1) * (r + 2 ^ s))
        = omega (2 ^ s) (m * r) * (omega (2 ^ Suc s) r * (- 1))" .
    have idx: "bitrev j b + (2 * m + 1) * 2 ^ j = bitrev (Suc j) (2 * b + 1) + m * 2 ^ Suc j"
      unfolding bitrev_odd by (simp add: algebra_simps)
    show ?thesis unfolding idx w by (simp only: mult_ac mult_minus_right mult_1_right mult_1_left mult_minus_left)
  qed
  have "stage_dft k x (Suc s) b (r + 2 ^ s)
      = (\<Sum>m<2 * 2 ^ s. x (bitrev j b + m * 2 ^ j) * omega (2 ^ Suc s) (m * (r + 2 ^ s)))"
    by (simp add: stage_dft_def j)
  also have "\<dots> = (\<Sum>m<2 ^ s. x (bitrev j b + (2 * m) * 2 ^ j) * omega (2 ^ Suc s) ((2 * m) * (r + 2 ^ s)))
      + (\<Sum>m<2 ^ s. x (bitrev j b + (2 * m + 1) * 2 ^ j) * omega (2 ^ Suc s) ((2 * m + 1) * (r + 2 ^ s)))"
    by (rule sum_even_odd)
  also have "\<dots> = stage_dft k x s (2 * b) r - omega (2 ^ Suc s) r * stage_dft k x s (2 * b + 1) r"
    unfolding ev od by (simp add: stage_dft_def j sum_distrib_left sum_negf)
  finally show ?thesis .
qed


text \<open>The indices of a butterfly, in the blocks of half the length.\<close>

lemma index_at: 
  fixes c h r :: nat
  assumes "r < h"
  shows "(c * h + r) div h = c" "(c * h + r) mod h = r"
  using assms by simp_all

lemma split_index_low:
  fixes p h :: nat
  assumes "p mod (2 * h) < h"
  shows "p div h = 2 * (p div (2 * h))" "p mod h = p mod (2 * h)"
    "(p + h) div h = 2 * (p div (2 * h)) + 1" "(p + h) mod h = p mod (2 * h)"
proof -
  define b r where "b = p div (2 * h)" and "r = p mod (2 * h)"
  have r: "r < h" using assms by (simp add: r_def)
  have p: "p = (2 * b) * h + r"
    using div_mult_mod_eq[of p "2 * h"] by (simp add: b_def r_def algebra_simps)
  then have ph: "p + h = (2 * b + 1) * h + r"
    by (simp add: algebra_simps)
  have "p div h = 2 * b" unfolding p by (rule index_at(1)[OF r])
  moreover have "p mod h = r" unfolding p by (rule index_at(2)[OF r])
  moreover have "(p + h) div h = 2 * b + 1" unfolding ph by (rule index_at(1)[OF r])
  moreover have "(p + h) mod h = r" unfolding ph by (rule index_at(2)[OF r])
  ultimately show "p div h = 2 * (p div (2 * h))" "p mod h = p mod (2 * h)"
    "(p + h) div h = 2 * (p div (2 * h)) + 1" "(p + h) mod h = p mod (2 * h)"
    by (simp_all only: b_def r_def)
qed

lemma split_index_high:
  fixes p h :: nat
  assumes "0 < h" "\<not> p mod (2 * h) < h"
  shows "p div h = 2 * (p div (2 * h)) + 1" "p mod h = p mod (2 * h) - h"
    "(p - h) div h = 2 * (p div (2 * h))" "(p - h) mod h = p mod (2 * h) - h"
    "h \<le> p" "p mod (2 * h) - h < h"
proof -
  define b r where "b = p div (2 * h)" and "r = p mod (2 * h)"
  have "r < 2 * h" using assms(1) by (simp add: r_def)
  moreover have hr: "h \<le> r" using assms(2) by (simp add: r_def)
  ultimately have r': "r - h < h" by linarith
  have p0: "p = b * (2 * h) + r"
    using div_mult_mod_eq[of p "2 * h"] by (simp add: b_def r_def)
  then have hp: "h \<le> p" using hr by linarith
  have p: "p = (2 * b + 1) * h + (r - h)"
    using p0 hr by (simp add: algebra_simps)
  have ph: "p - h = (2 * b) * h + (r - h)"
    using p0 hr by (simp add: algebra_simps)
  have "p div h = 2 * b + 1" by (subst p) (rule index_at(1)[OF r'])
  moreover have "p mod h = r - h" by (subst p) (rule index_at(2)[OF r'])
  moreover have "(p - h) div h = 2 * b" unfolding ph by (rule index_at(1)[OF r'])
  moreover have "(p - h) mod h = r - h" unfolding ph by (rule index_at(2)[OF r'])
  ultimately show "p div h = 2 * (p div (2 * h)) + 1" "p mod h = p mod (2 * h) - h"
    "(p - h) div h = 2 * (p div (2 * h))" "(p - h) mod h = p mod (2 * h) - h"
    "h \<le> p" "p mod (2 * h) - h < h"
    using hp r' by (simp_all only: b_def r_def)
qed


text \<open>One stage, all stages, and \<open>fft\<close> itself.\<close>

lemma pow2_split: "s < k \<Longrightarrow> (2::nat) ^ k = 2 ^ (k - Suc s) * (2 * 2 ^ s)"
proof -
  assume "s < k"
  then have "k = (k - Suc s) + Suc s" by simp
  then have "(2::nat) ^ k = 2 ^ ((k - Suc s) + Suc s)" by simp
  then show ?thesis by (simp only: power_add power_Suc)
qed

lemma twiddle_at:
  assumes "s < k" "r < 2 ^ s"
    and tw: "\<And>i. i < 2 ^ k div 2 \<Longrightarrow> cz twr twi i = omega (2 ^ k) i"
  shows "cz twr twi (r * (2 ^ k div (2 * 2 ^ s))) = omega (2 ^ Suc s) r"
proof -
  have kk: "(2::nat) ^ k = 2 ^ (k - Suc s) * 2 ^ Suc s"
    using pow2_split[OF assms(1)] by simp
  then have step: "(2::nat) ^ k div (2 * 2 ^ s) = 2 ^ (k - Suc s)" by simp
  have "(2::nat) ^ k = 2 * (2 ^ (k - Suc s) * 2 ^ s)" using kk by simp
  then have half: "(2::nat) ^ k div 2 = 2 ^ (k - Suc s) * 2 ^ s" by simp
  have "r * 2 ^ (k - Suc s) < 2 ^ s * 2 ^ (k - Suc s)" using assms(2) by simp
  then have "r * 2 ^ (k - Suc s) < 2 ^ k div 2" by (simp add: half mult.commute)
  then have "cz twr twi (r * 2 ^ (k - Suc s)) = omega (2 ^ k) (r * 2 ^ (k - Suc s))" by (rule tw)
  also have "\<dots> = omega (2 ^ (k - Suc s) * 2 ^ Suc s) (2 ^ (k - Suc s) * r)"
    by (subst kk) (simp only: mult.commute[of r])
  also have "\<dots> = omega (2 ^ Suc s) r" by (rule omega_scale) simp
  finally show ?thesis by (simp only: step)
qed

lemma dft_stage:
  assumes sk: "s < k" and p: "p < 2 ^ k"
    and tw: "\<And>i. i < 2 ^ k div 2 \<Longrightarrow> cz twr twi i = omega (2 ^ k) i"
    and inv: "\<And>q. q < 2 ^ k \<Longrightarrow> cz re im q = stage_dft k x s (q div 2 ^ s) (q mod 2 ^ s)"
  shows "stage_cz twr twi (2 ^ k div (2 * 2 ^ s)) (2 ^ s) re im p
           = stage_dft k x (Suc s) (p div 2 ^ Suc s) (p mod 2 ^ Suc s)"
proof (cases "p mod (2 * 2 ^ s) < 2 ^ s")
  case True
  note sp = split_index_low[OF True]
  have kk: "(2::nat) ^ k = 2 ^ (k - Suc s) * (2 * 2 ^ s)"
    using sk by (rule pow2_split)
  have ph: "p + 2 ^ s < 2 ^ k"
    using upper_partner_in_range[of p "2 ^ (k - Suc s)" "2 ^ s"] p True kk by simp
  have "stage_cz twr twi (2 ^ k div (2 * 2 ^ s)) (2 ^ s) re im p
      = cz re im p + cz twr twi (p mod (2 * 2 ^ s) * (2 ^ k div (2 * 2 ^ s))) * cz re im (p + 2 ^ s)"
    using True by (simp add: stage_cz_def)
  also have "\<dots> = stage_dft k x s (2 * (p div (2 * 2 ^ s))) (p mod (2 * 2 ^ s))
      + omega (2 ^ Suc s) (p mod (2 * 2 ^ s))
        * stage_dft k x s (2 * (p div (2 * 2 ^ s)) + 1) (p mod (2 * 2 ^ s))"
  proof -
    have t: "cz twr twi (p mod (2 * 2 ^ s) * (2 ^ k div (2 * 2 ^ s))) = omega (2 ^ Suc s) (p mod (2 * 2 ^ s))"
      using sk True tw by (rule twiddle_at)
    show ?thesis by (simp only: inv[OF p] inv[OF ph] sp t)
  qed
  also have "\<dots> = stage_dft k x (Suc s) (p div (2 * 2 ^ s)) (p mod (2 * 2 ^ s))"
    by (rule stage_dft_low[OF sk, symmetric])
  finally show ?thesis by simp
next
  case False
  have h: "0 < (2::nat) ^ s" by simp
  note sp = split_index_high[OF h False]
  have pm: "p - 2 ^ s < 2 ^ k" using p by simp
  have r: "p mod (2 * 2 ^ s) = (p mod (2 * 2 ^ s) - 2 ^ s) + 2 ^ s" using False by simp
  have "stage_cz twr twi (2 ^ k div (2 * 2 ^ s)) (2 ^ s) re im p
      = cz re im (p - 2 ^ s)
        - cz twr twi ((p mod (2 * 2 ^ s) - 2 ^ s) * (2 ^ k div (2 * 2 ^ s))) * cz re im p"
    using False by (simp add: stage_cz_def)
  also have "\<dots> = stage_dft k x s (2 * (p div (2 * 2 ^ s))) (p mod (2 * 2 ^ s) - 2 ^ s)
      - omega (2 ^ Suc s) (p mod (2 * 2 ^ s) - 2 ^ s)
        * stage_dft k x s (2 * (p div (2 * 2 ^ s)) + 1) (p mod (2 * 2 ^ s) - 2 ^ s)"
  proof -
    have t: "cz twr twi ((p mod (2 * 2 ^ s) - 2 ^ s) * (2 ^ k div (2 * 2 ^ s)))
        = omega (2 ^ Suc s) (p mod (2 * 2 ^ s) - 2 ^ s)"
      using sk sp(6) tw by (rule twiddle_at)
    show ?thesis by (simp only: inv[OF p] inv[OF pm] sp(1-4) t)
  qed
  also have "\<dots> = stage_dft k x (Suc s) (p div (2 * 2 ^ s)) ((p mod (2 * 2 ^ s) - 2 ^ s) + 2 ^ s)"
    by (rule stage_dft_high[OF sk, symmetric])
  also have "\<dots> = stage_dft k x (Suc s) (p div (2 * 2 ^ s)) (p mod (2 * 2 ^ s))"
    using r by simp
  finally show ?thesis by simp
qed

lemma dft_stages:
  assumes tw: "\<And>i. i < 2 ^ k div 2 \<Longrightarrow> cz twr twi i = omega (2 ^ k) i"
  shows "s \<le> k \<Longrightarrow> length re = 2 ^ k \<Longrightarrow> length im = 2 ^ k \<Longrightarrow>
   (\<And>p. p < 2 ^ k \<Longrightarrow> cz re im p = stage_dft k x s (p div 2 ^ s) (p mod 2 ^ s)) \<Longrightarrow>
     \<exists>re' im'. fft_stages twr twi (2 ^ k) (2 * 2 ^ s) (re, im) = (re', im')
        \<and> length re' = 2 ^ k \<and> length im' = 2 ^ k \<and> (\<forall>p<2 ^ k. cz re' im' p = dft (2 ^ k) x p)"
proof (induction "k - s" arbitrary: s re im)
  case 0
  then have sk: "s = k" by simp
  then have "\<not> 2 * 2 ^ s \<le> (2::nat) ^ k" by simp
  then have "fft_stages twr twi (2 ^ k) (2 * 2 ^ s) (re, im) = (re, im)"
    by (subst fft_stages.simps) simp
  moreover have "cz re im p = dft (2 ^ k) x p" if "p < 2 ^ k" for p
    using "0.prems"(4)[OF that] that by (simp add: sk stage_dft_def dft_def)
  ultimately show ?case using 0 by simp
next
  case (Suc d)
  then have sk: "s < k" by simp
  have n: "(2::nat) ^ k = 2 ^ (k - Suc s) * (2 * 2 ^ s)"
    using sk by (rule pow2_split)
  from fft_stage_run[of "2 ^ s" "2 ^ k" "2 ^ (k - Suc s)" re im twr twi] n Suc.prems(2,3)
  obtain r1 i1 where
    run: "fft_stages twr twi (2 ^ k) (2 * 2 ^ s) (re, im)
            = fft_stages twr twi (2 ^ k) (2 * (2 * 2 ^ s)) (r1, i1)"
    and l: "length r1 = 2 ^ k" "length i1 = 2 ^ k"
    and v: "\<And>p. p < 2 ^ k \<Longrightarrow> cz r1 i1 p = stage_cz twr twi (2 ^ k div (2 * 2 ^ s)) (2 ^ s) re im p"
    by auto
  have v1: "cz r1 i1 p = stage_dft k x (Suc s) (p div 2 ^ Suc s) (p mod 2 ^ Suc s)" if "p < 2 ^ k" for p
    unfolding v[OF that] using sk that tw Suc.prems(4) by (rule dft_stage)
  have "d = k - Suc s" using Suc.hyps(2) by simp
  from Suc.hyps(1)[OF this _ l v1] sk run show ?case by simp
qed


lemma fft_dft:
  assumes init: "initFFT st0 okRe okIm okBr n = Inr (True, st)"
    and len: "length re = nat n" "length im = nat n"
  shows "\<exists>re' im'. fft st (Some re) (Some im) n = Inr (True, st, Some re', Some im')
           \<and> length re' = nat n \<and> length im' = nat n
           \<and> (\<forall>p<nat n. cz re' im' p = dft (nat n) (cz re im) p)"
proof (rule fft_on_initialised[OF init len])
  fix k twr twi
  assume nk: "nat n = 2 ^ k"
    and tw: "\<And>i. i < 2 ^ k div 2 \<Longrightarrow> cz twr twi i = cis (twiddle_angle (2 ^ k) i)"
    and run: "fft st (Some re) (Some im) n =
      (case fft_stages twr twi (2 ^ k) 2
              (map (\<lambda>p. re ! bitrev k p) [0..<2 ^ k], map (\<lambda>p. im ! bitrev k p) [0..<2 ^ k]) of
         (re', im') \<Rightarrow> Inr (True, st, Some re', Some im'))"
  let ?r0 = "map (\<lambda>p. re ! bitrev k p) [0..<2 ^ k]" and ?i0 = "map (\<lambda>p. im ! bitrev k p) [0..<2 ^ k]"
  have tw': "cz twr twi i = omega (2 ^ k) i" if "i < 2 ^ k div 2" for i
    using tw[OF that] by (simp add: omega_def twiddle_angle_def)
  have v0: "cz ?r0 ?i0 p = stage_dft k (cz re im) 0 (p div 2 ^ 0) (p mod 2 ^ 0)" if "p < 2 ^ k" for p
    using that by (simp add: cz_def stage_dft_def)
  from dft_stages[of k twr twi 0 ?r0 ?i0 "cz re im", OF tw' _ _ _ v0]
  obtain re' im' where st: "fft_stages twr twi (2 ^ k) 2 (?r0, ?i0) = (re', im')"
    and l: "length re' = 2 ^ k" "length im' = 2 ^ k"
    and v: "\<And>p. p < 2 ^ k \<Longrightarrow> cz re' im' p = dft (2 ^ k) (cz re im) p"
    by auto
  from run st have "fft st (Some re) (Some im) n = Inr (True, st, Some re', Some im')" by simp
  with l v show ?thesis by (simp only: nk) blast
qed

section \<open>The round trip\<close>

lemma ifft_composition:
  assumes "length b = nat n"
    and "fft st (Some a) (Some (map uminus b)) n = Inr (True, st', Some a', Some b')"
    and "length a' = nat n" "length b' = nat n"
  shows "ifft st (Some a) (Some b) n
           = Inr (True, st', Some (map (\<lambda>x. x * (1 / real_of_int n)) a'),
                  Some (map (\<lambda>x. x * - (1 / real_of_int n)) b'))"
proof -
  have "isPowerOfTwo n" using assms(2) by (auto simp: fft_def split: if_splits)
  then show ?thesis using assms by (simp add: ifft_def map_first_def)
qed

lemma omega_orthogonal:
  assumes "j < n" "p < n"
  shows "(\<Sum>m<n. omega n (j * m) * cnj (omega n (m * p))) = (if j = p then of_nat n else 0)"
proof -
  define c where "c = cis (2 * pi * (real p - real j) / real n)"
  have n: "0 < n" using assms by simp
  have tm: "omega n (j * m) * cnj (omega n (m * p)) = c ^ m" for m
  proof -
    have "- 2 * pi * real (j * m) / real n + - (- 2 * pi * real (m * p) / real n)
        = real m * (2 * pi * (real p - real j) / real n)"
      using n by (simp add: field_simps)
    then show ?thesis
      by (simp only: omega_def c_def cis_cnj cis_mult DeMoivre)
  qed
  show ?thesis
  proof (cases "j = p")
    case True
    then have "c = 1" by (simp add: c_def)
    then show ?thesis unfolding tm using True by simp
  next
    case False
    have "c ^ n = cis (2 * pi * (real p - real j))"
      using n by (simp add: c_def DeMoivre)
    also have "\<dots> = 1"
      by (rule cis_multiple_2pi) simp
    finally have cn: "c ^ n = 1" .
    have "c \<noteq> 1"
    proof
      assume "c = 1"
      then have "cos (2 * pi * (real p - real j) / real n) = 1"
        by (simp add: c_def complex_eq_iff)
      then obtain z :: int where z: "2 * pi * (real p - real j) / real n = of_int z * 2 * pi"
        using cos_one_2pi_int by blast
      then have "(2 * pi) * (real p - real j) = (2 * pi) * (of_int z * real n)"
        using n by (simp add: field_simps)
      then have "real p - real j = of_int z * real n"
        by (rule mult_left_cancel[THEN iffD1, rotated]) simp
      then have "real_of_int (int p - int j) = real_of_int (z * int n)" by simp
      then have e: "int p - int j = z * int n" by (simp only: of_int_eq_iff)
      have "\<bar>int p - int j\<bar> < int n" using assms by linarith
      with e have "\<bar>z\<bar> * int n < 1 * int n" by (simp add: abs_mult)
      then have "\<bar>z\<bar> < 1" using n by (simp only: mult_less_cancel_right)
      then have "z = 0" by simp
      with e False show False by simp
    qed
    then have "(\<Sum>m<n. c ^ m) = (c ^ n - 1) / (c - 1)" by (rule geometric_sum)
    then show ?thesis unfolding tm using False cn by simp
  qed
qed

lemma dft_inversion:
  assumes "p < n"
  shows "cnj (dft n (\<lambda>q. cnj (dft n x q)) p) / of_nat n = x p"
proof -
  have n: "0 < n" using assms by simp
  have "cnj (dft n (\<lambda>q. cnj (dft n x q)) p) = (\<Sum>m<n. dft n x m * cnj (omega n (m * p)))"
    by (simp add: dft_def[of n _ p] cnj_sum)
  also have "\<dots> = (\<Sum>m<n. \<Sum>j<n. x j * (omega n (j * m) * cnj (omega n (m * p))))"
    by (simp add: dft_def sum_distrib_right mult.assoc)
  also have "\<dots> = (\<Sum>j<n. \<Sum>m<n. x j * (omega n (j * m) * cnj (omega n (m * p))))"
    by (rule sum.swap)
  also have "\<dots> = (\<Sum>j<n. x j * (\<Sum>m<n. omega n (j * m) * cnj (omega n (m * p))))"
    by (simp add: sum_distrib_left)
  also have "\<dots> = (\<Sum>j<n. x j * (if j = p then of_nat n else 0))"
    by (rule sum.cong) (simp_all add: omega_orthogonal assms)
  also have "\<dots> = (\<Sum>j<n. if j = p then x j * of_nat n else 0)"
    by (rule sum.cong) simp_all
  also have "\<dots> = x p * of_nat n"
    using assms by (simp add: sum.delta)
  finally show ?thesis using n by simp
qed


lemma dft_cong: "(\<And>m. m < n \<Longrightarrow> x m = y m) \<Longrightarrow> dft n x p = dft n y p"
  by (simp add: dft_def)

lemma initFFT_2: "initFFT engine2 True True True 2 = Inr (True, engine2)"
proof -
  have "fill_bitrev 2 0 0 (replicate 2 0) = [0, 1]" by code_simp
  then show ?thesis
    by (simp add: initFFT_def isPowerOfTwo_def Let_def engine2_def twiddle_angle_def)
qed

text \<open>
  The round trip in the real arithmetic of this model. On an engine that \<open>initFFT(n)\<close>
  has just built (so \<open>n\<close> is a power of two), for every pair of buffers of length \<open>n\<close>:
  \<open>fft\<close> succeeds, and \<open>ifft\<close> on the buffers it leaves succeeds and gives back the
  original buffers, exactly. The code computes in binary32, where every operation
  rounds and a large sample overflows: how far its round trip is from the original is
  not a statement about real numbers, and nothing is stated of it here.
  And \<open>ifft\<close> is the composition the specification describes: whatever \<open>fft\<close> makes of the
  buffers with the imaginary one negated, \<open>ifft\<close> returns it with every entry scaled by
  \<open>1/n\<close> and the imaginary entries negated again.
\<close>

lemma round_trip_exact:
  assumes init: "initFFT st0 okRe okIm okBr n = Inr (True, st)"
    and len: "length re = nat n" "length im = nat n"
  shows "(\<exists>re' im'. fft st (Some re) (Some im) n = Inr (True, st, Some re', Some im')
            \<and> ifft st (Some re') (Some im') n = Inr (True, st, Some re, Some im))
       \<and> (\<forall>a' b'. fft st (Some re) (Some (map uminus im)) n = Inr (True, st, Some a', Some b') \<longrightarrow>
             ifft st (Some re) (Some im) n
               = Inr (True, st, Some (map (\<lambda>x. x * (1 / real_of_int n)) a'),
                      Some (map (\<lambda>x. x * - (1 / real_of_int n)) b')))"
proof (intro conjI allI impI)
  fix a' b'
  assume f: "fft st (Some re) (Some (map uminus im)) n = Inr (True, st, Some a', Some b')"
  from fft_dft[OF init len(1), of "map uminus im"] len(2) f
  have "length a' = nat n" "length b' = nat n" by auto
  with f len(2) show "ifft st (Some re) (Some im) n
               = Inr (True, st, Some (map (\<lambda>x. x * (1 / real_of_int n)) a'),
                      Some (map (\<lambda>x. x * - (1 / real_of_int n)) b'))"
    by (intro ifft_composition)
next
  let ?N = "nat n"
  have npos: "0 < n" "real_of_int n = real ?N"
  proof -
    obtain k where "nat n = 2 ^ k" using init by (rule initialised_engine)
    then have "0 < nat n" by simp
    then show "0 < n" by simp
    then show "real_of_int n = real ?N" by simp
  qed
  from fft_dft[OF init len] obtain Xr Xi
    where fx: "fft st (Some re) (Some im) n = Inr (True, st, Some Xr, Some Xi)"
      and lx: "length Xr = ?N" "length Xi = ?N"
      and vx: "\<And>q. q < ?N \<Longrightarrow> cz Xr Xi q = dft ?N (cz re im) q"
    by blast
  from fft_dft[OF init lx(1), of "map uminus Xi"] lx(2) obtain Yr Yi
    where fy: "fft st (Some Xr) (Some (map uminus Xi)) n = Inr (True, st, Some Yr, Some Yi)"
      and ly: "length Yr = ?N" "length Yi = ?N"
      and vy: "\<And>p. p < ?N \<Longrightarrow> cz Yr Yi p = dft ?N (cz Xr (map uminus Xi)) p"
    by auto
  have inv: "ifft st (Some Xr) (Some Xi) n
      = Inr (True, st, Some (map (\<lambda>x. x * (1 / real_of_int n)) Yr),
             Some (map (\<lambda>x. x * - (1 / real_of_int n)) Yi))"
    using lx(2) fy ly by (rule ifft_composition)
  have rt: "cnj (cz Yr Yi p) / of_nat ?N = cz re im p" if p: "p < ?N" for p
  proof -
    have "cz Xr (map uminus Xi) q = cnj (dft ?N (cz re im) q)" if "q < ?N" for q
      using vx[OF that] that lx by (simp add: cz_def complex_eq_iff)
    then have "dft ?N (cz Xr (map uminus Xi)) p = dft ?N (\<lambda>q. cnj (dft ?N (cz re im) q)) p"
      by (rule dft_cong)
    then show ?thesis using vy[OF p] dft_inversion[OF p, of "cz re im"] by simp
  qed
  have "Yr ! p * (1 / real_of_int n) = re ! p \<and> Yi ! p * - (1 / real_of_int n) = im ! p"
    if p: "p < ?N" for p
  proof -
    have "Complex (Yr ! p * (1 / real_of_int n)) (Yi ! p * - (1 / real_of_int n))
        = cnj (cz Yr Yi p) / of_nat ?N"
      using npos by (simp add: cz_def complex_eq_iff)
    with rt[OF p] show ?thesis by (simp add: cz_def)
  qed
  then have "map (\<lambda>x. x * (1 / real_of_int n)) Yr = re" "map (\<lambda>x. x * - (1 / real_of_int n)) Yi = im"
    using ly len by (simp_all add: list_eq_iff_nth_eq)
  with inv fx show "\<exists>re' im'. fft st (Some re) (Some im) n = Inr (True, st, Some re', Some im')
            \<and> ifft st (Some re') (Some im') n = Inr (True, st, Some re, Some im)"
    by simp
qed

lemma round_trip_exact_example:
  "initFFT engine2 True True True 2 = Inr (True, engine2)
   \<and> fft engine2 (Some [1, 2]) (Some [3, 4]) 2 = Inr (True, engine2, Some [3, - 1], Some [7, - 1])
   \<and> ifft engine2 (Some [3, - 1]) (Some [7, - 1]) 2 = Inr (True, engine2, Some [1, 2], Some [3, 4])"
proof -
  have f: "fft engine2 (Some [1, 2]) (Some [3, 4]) 2 = Inr (True, engine2, Some [3, - 1], Some [7, - 1])"
    by (simp add: fft_def engine2_def isPowerOfTwo_def fft_fault_def upt_rec bit_reverse_pass_def
        bit_reverse_step_def swap_at_def fft_stages.simps butterfly_blocks.simps
        butterfly_block_def butterfly_def Let_def)
  from round_trip_exact[OF initFFT_2, of "[1, 2]" "[3, 4]"] f initFFT_2
  show ?thesis by simp
qed


end
